theory Spec2Isabelle
  imports Complex_Main "HOL-Library.AList" "HOL-Library.Word"
begin

section \<open>Python and NumPy values used by the two notebooks\<close>

text \<open>
  The exceptions the modelled statements can raise. A raising statement is the value
  \<open>Inl e\<close>; a statement that completes is \<open>Inr\<close> of what it computed.
\<close>

datatype py_error = NameError | ValueError | KeyError | IndexError

text \<open>
  A Python \<open>str\<close> is the list of its code points, and a character is a code point,
  a natural number; Python compares characters, and \<open>sorted\<close> orders them, by code
  point. \<open>code_point\<close> (Python's \<open>ord\<close>) and \<open>py_str_of\<close> write characters and
  strings of the first 256 code points as literals. The three characters the notebook
  names are the tab, the newline and the space.
\<close>

type_synonym py_char = nat
type_synonym py_str = "py_char list"

definition code_point :: "char \<Rightarrow> py_char" where
  "code_point c = of_char c"

definition py_str_of :: "string \<Rightarrow> py_str" where
  "py_str_of s = map code_point s"

definition TAB :: py_char where "TAB = 9"
definition NEWLINE :: py_char where "NEWLINE = 10"
definition SPACE :: py_char where "SPACE = 32"

text \<open>
  A \<open>dict\<close> keeps its items in insertion order; assigning to a key that is present
  replaces the value in place. \<open>d[k]\<close> raises KeyError on a missing key.
\<close>

type_synonym ('k, 'v) dict = "('k \<times> 'v) list"

definition py_dict :: "('k \<times> 'v) list \<Rightarrow> ('k, 'v) dict" where
  "py_dict kvs = foldl (\<lambda>d (k, v). AList.update k v d) [] kvs"

definition getitem :: "('k, 'v) dict \<Rightarrow> 'k \<Rightarrow> py_error + 'v" where
  "getitem d k = (case map_of d k of None \<Rightarrow> Inl KeyError | Some v \<Rightarrow> Inr v)"

text \<open>
  NumPy arrays of rank 2 and 3 are nested lists in row-major order. The entries are
  modelled as real numbers: the only entries the notebook itself writes are 0.0 and 1.0.
\<close>

type_synonym array1 = "real list"
type_synonym array2 = "real list list"
type_synonym array3 = "real list list list"

definition np_zeros3 :: "nat \<Rightarrow> nat \<Rightarrow> nat \<Rightarrow> array3" where
  "np_zeros3 a b c = replicate a (replicate b (replicate c 0))"

text \<open>\<open>arr[i, t, k] = v\<close> with non-negative indices: IndexError outside the shape.\<close>

definition setitem3 :: "array3 \<Rightarrow> nat \<Rightarrow> nat \<Rightarrow> nat \<Rightarrow> real \<Rightarrow> py_error + array3" where
  "setitem3 arr i t k v =
     (if i < length arr \<and> t < length (arr ! i) \<and> k < length (arr ! i ! t)
      then Inr (arr[i := (arr ! i)[t := (arr ! i ! t)[k := v]]])
      else Inl IndexError)"

text \<open>\<open>arr[0, -1, :]\<close>: the last row of the first block.\<close>

definition last_timestep :: "array3 \<Rightarrow> py_error + array1" where
  "last_timestep arr =
     (case arr of [] \<Rightarrow> Inl IndexError
      | b # _ \<Rightarrow> (if b = [] then Inl IndexError else Inr (last b)))"

text \<open>
  \<open>np.argmax\<close> of a vector: a left-to-right scan that keeps the first index of the
  largest entry; ValueError on an empty vector.
\<close>

primrec argmax_scan :: "nat \<Rightarrow> real \<Rightarrow> nat \<Rightarrow> real list \<Rightarrow> nat" where
  "argmax_scan best bv i [] = best"
| "argmax_scan best bv i (x # xs) =
     (if bv < x then argmax_scan i x (Suc i) xs else argmax_scan best bv (Suc i) xs)"

definition np_argmax :: "array1 \<Rightarrow> py_error + nat" where
  "np_argmax v = (case v of [] \<Rightarrow> Inl ValueError | x # xs \<Rightarrow> Inr (argmax_scan 0 x 1 xs))"

definition one_hot :: "nat \<Rightarrow> nat \<Rightarrow> array1" where
  "one_hot n k = (replicate n 0)[k := 1]"

text \<open>
  \<open>arr[i, start:, k] = v\<close>: the integer indices are checked against the shape, the slice
  is clipped to it. The arrays of the notebook are rectangular, so the width of axis 2
  is the length of every row of block \<open>i\<close>.
\<close>

definition setslice3 :: "array3 \<Rightarrow> nat \<Rightarrow> nat \<Rightarrow> nat \<Rightarrow> real \<Rightarrow> py_error + array3" where
  "setslice3 arr i start k v =
     (if i < length arr \<and> (\<forall>row \<in> set (arr ! i). k < length row)
      then Inr (arr[i := map (\<lambda>(t', row). if start \<le> t' then row[k := v] else row)
                           (enumerate 0 (arr ! i))])
      else Inl IndexError)"

text \<open>\<open>s.split(sep)\<close> for a one-character separator: every occurrence splits.\<close>

fun split_on :: "py_char \<Rightarrow> py_str \<Rightarrow> py_str list" where
  "split_on sep [] = [[]]"
| "split_on sep (c # cs) =
     (if c = sep then [] # split_on sep cs
      else (case split_on sep cs of [] \<Rightarrow> [[c]] | w # ws \<Rightarrow> (c # w) # ws))"

text \<open>\<open>a, b, c = parts\<close>: ValueError unless there are exactly three parts.\<close>

definition unpack3 :: "'a list \<Rightarrow> py_error + 'a \<times> 'a \<times> 'a" where
  "unpack3 parts = (case parts of [a, b, c] \<Rightarrow> Inr (a, b, c) | _ \<Rightarrow> Inl ValueError)"

text \<open>\<open>max(xs)\<close>: ValueError on an empty list.\<close>

definition py_max :: "nat list \<Rightarrow> py_error + nat" where
  "py_max xs = (case xs of [] \<Rightarrow> Inl ValueError | x # rest \<Rightarrow> Inr (foldl max x rest))"

section \<open>lstm\_seq2seq: configuration and the vectorization cell\<close>

definition batch_size :: nat where "batch_size = 64"
definition epochs :: nat where "epochs = 100"
definition num_samples :: nat where "num_samples = 10000"

text \<open>
  The globals of the vectorization cell. \<open>t\<close> is the loop variable of the two inner
  fill loops: it is read after them, and it is \<open>None\<close> while no loop has bound it.
\<close>

record notebook =
  input_texts :: "py_str list"
  target_texts :: "py_str list"
  input_characters :: py_str
  target_characters :: py_str
  num_encoder_tokens :: nat
  num_decoder_tokens :: nat
  max_encoder_seq_length :: nat
  max_decoder_seq_length :: nat
  input_token_index :: "(py_char, nat) dict"
  target_token_index :: "(py_char, nat) dict"
  encoder_input_data :: array3
  decoder_input_data :: array3
  decoder_target_data :: array3
  t :: "nat option"

subsection \<open>Reading the file\<close>

text \<open>\<open>for char in text: if char not in characters: characters.add(char)\<close>\<close>

definition add_chars :: "py_str \<Rightarrow> py_char set \<Rightarrow> py_char set" where
  "add_chars text characters =
     foldl (\<lambda>cs char. if char \<notin> cs then insert char cs else cs) characters text"

text \<open>
  The body of the loop over the lines, on the four variables it updates:
  \<open>input_texts\<close>, \<open>target_texts\<close> and the two character sets.
\<close>

type_synonym reading = "py_str list \<times> py_str list \<times> py_char set \<times> py_char set"

definition read_line :: "py_str \<Rightarrow> reading \<Rightarrow> py_error + reading" where
  "read_line line r =
     (case r of (in_texts, tg_texts, in_chars, tg_chars) \<Rightarrow>
      (case unpack3 (split_on TAB line) of
         Inl e \<Rightarrow> Inl e
       | Inr (input_text, target_field, _) \<Rightarrow>
           (let target_text = [TAB] @ target_field @ [NEWLINE]
            in Inr (in_texts @ [input_text], tg_texts @ [target_text],
                    add_chars input_text in_chars, add_chars target_text tg_chars))))"

fun read_lines :: "py_str list \<Rightarrow> reading \<Rightarrow> py_error + reading" where
  "read_lines [] r = Inr r"
| "read_lines (line # rest) r =
     (case read_line line r of Inl e \<Rightarrow> Inl e | Inr r' \<Rightarrow> read_lines rest r')"

text \<open>\<open>dict([(char, i) for i, char in enumerate(characters)])\<close>\<close>

definition token_index :: "py_str \<Rightarrow> (py_char, nat) dict" where
  "token_index characters = py_dict (map (\<lambda>(i, char). (char, i)) (enumerate 0 characters))"

text \<open>
  The lines the loop reads: \<open>lines[: min(num_samples, len(lines) - 1)]\<close>, where
  \<open>lines\<close> is the content of the file split at every newline.
\<close>

definition loaded_lines :: "py_str \<Rightarrow> py_str list" where
  "loaded_lines content =
     (let lines = split_on NEWLINE content
      in take (min num_samples (length lines - 1)) lines)"

text \<open>
  The cell from its first line to the allocation of the three zero arrays; \<open>content\<close>
  is what \<open>f.read()\<close> returns.
\<close>

definition load_data :: "py_str \<Rightarrow> py_error + notebook" where
  "load_data content =
     (case read_lines (loaded_lines content) ([], [], {}, {}) of
           Inl e \<Rightarrow> Inl e
         | Inr (in_texts, tg_texts, in_chars, tg_chars) \<Rightarrow>
            (let in_characters = sorted_list_of_set in_chars;
                 tg_characters = sorted_list_of_set tg_chars
             in case py_max (map length in_texts) of
                  Inl e \<Rightarrow> Inl e
                | Inr max_enc \<Rightarrow>
                   (case py_max (map length tg_texts) of
                      Inl e \<Rightarrow> Inl e
                    | Inr max_dec \<Rightarrow>
                       Inr \<lparr>input_texts = in_texts,
                            target_texts = tg_texts,
                            input_characters = in_characters,
                            target_characters = tg_characters,
                            num_encoder_tokens = length in_characters,
                            num_decoder_tokens = length tg_characters,
                            max_encoder_seq_length = max_enc,
                            max_decoder_seq_length = max_dec,
                            input_token_index = token_index in_characters,
                            target_token_index = token_index tg_characters,
                            encoder_input_data =
                              np_zeros3 (length in_texts) max_enc (length in_characters),
                            decoder_input_data =
                              np_zeros3 (length in_texts) max_dec (length tg_characters),
                            decoder_target_data =
                              np_zeros3 (length in_texts) max_dec (length tg_characters),
                            t = None\<rparr>)))"

subsection \<open>The fill loops\<close>

text \<open>\<open>for t, char in enumerate(input_text): encoder_input_data[i, t, input_token_index[char]] = 1.0\<close>\<close>

fun fill_encoder :: "nat \<Rightarrow> (nat \<times> py_char) list \<Rightarrow> notebook \<Rightarrow> py_error + notebook" where
  "fill_encoder i [] g = Inr g"
| "fill_encoder i ((t', char) # rest) g =
     (case getitem (input_token_index g) char of
        Inl e \<Rightarrow> Inl e
      | Inr k \<Rightarrow>
         (case setitem3 (encoder_input_data g) i t' k 1 of
            Inl e \<Rightarrow> Inl e
          | Inr arr \<Rightarrow> fill_encoder i rest (g\<lparr>t := Some t', encoder_input_data := arr\<rparr>)))"

text \<open>
  The loop over \<open>enumerate(target_text)\<close>: the decoder input at \<open>t\<close>, and for \<open>t > 0\<close>
  the decoder target at \<open>t - 1\<close>. The source looks \<open>target_token_index[char]\<close> up
  in both statements; the dictionary is not changed in between, so the second lookup
  returns the same index \<open>k\<close>.
\<close>

fun fill_decoder :: "nat \<Rightarrow> (nat \<times> py_char) list \<Rightarrow> notebook \<Rightarrow> py_error + notebook" where
  "fill_decoder i [] g = Inr g"
| "fill_decoder i ((t', char) # rest) g =
     (case getitem (target_token_index g) char of
        Inl e \<Rightarrow> Inl e
      | Inr k \<Rightarrow>
         (case setitem3 (decoder_input_data g) i t' k 1 of
            Inl e \<Rightarrow> Inl e
          | Inr arr \<Rightarrow>
             (if t' > 0
              then (case setitem3 (decoder_target_data g) i (t' - 1) k 1 of
                      Inl e \<Rightarrow> Inl e
                    | Inr arr' \<Rightarrow>
                        fill_decoder i rest
                          (g\<lparr>t := Some t', decoder_input_data := arr,
                             decoder_target_data := arr'\<rparr>))
              else fill_decoder i rest (g\<lparr>t := Some t', decoder_input_data := arr\<rparr>))))"

text \<open>Reading the name \<open>t\<close>: NameError while it is unbound.\<close>

definition read_t :: "notebook \<Rightarrow> py_error + nat" where
  "read_t g = (case t g of None \<Rightarrow> Inl NameError | Some v \<Rightarrow> Inr v)"

text \<open>
  The three padding statements. In a subscript \<open>[i, t + 1 :, index[" "]]\<close> the name
  \<open>t\<close> is evaluated before the dictionary lookup.
\<close>

definition pad_encoder :: "nat \<Rightarrow> notebook \<Rightarrow> py_error + notebook" where
  "pad_encoder i g =
     (case read_t g of Inl e \<Rightarrow> Inl e | Inr tv \<Rightarrow>
      (case getitem (input_token_index g) SPACE of Inl e \<Rightarrow> Inl e | Inr k \<Rightarrow>
       (case setslice3 (encoder_input_data g) i (tv + 1) k 1 of Inl e \<Rightarrow> Inl e
        | Inr arr \<Rightarrow> Inr (g\<lparr>encoder_input_data := arr\<rparr>))))"

definition pad_decoder_input :: "nat \<Rightarrow> notebook \<Rightarrow> py_error + notebook" where
  "pad_decoder_input i g =
     (case read_t g of Inl e \<Rightarrow> Inl e | Inr tv \<Rightarrow>
      (case getitem (target_token_index g) SPACE of Inl e \<Rightarrow> Inl e | Inr k \<Rightarrow>
       (case setslice3 (decoder_input_data g) i (tv + 1) k 1 of Inl e \<Rightarrow> Inl e
        | Inr arr \<Rightarrow> Inr (g\<lparr>decoder_input_data := arr\<rparr>))))"

definition pad_decoder_target :: "nat \<Rightarrow> notebook \<Rightarrow> py_error + notebook" where
  "pad_decoder_target i g =
     (case read_t g of Inl e \<Rightarrow> Inl e | Inr tv \<Rightarrow>
      (case getitem (target_token_index g) SPACE of Inl e \<Rightarrow> Inl e | Inr k \<Rightarrow>
       (case setslice3 (decoder_target_data g) i tv k 1 of Inl e \<Rightarrow> Inl e
        | Inr arr \<Rightarrow> Inr (g\<lparr>decoder_target_data := arr\<rparr>))))"

text \<open>The body of the outer loop, for sample \<open>i\<close>.\<close>

definition fill_sample :: "nat \<Rightarrow> py_str \<Rightarrow> py_str \<Rightarrow> notebook \<Rightarrow> py_error + notebook" where
  "fill_sample i input_text target_text g =
     (case fill_encoder i (enumerate 0 input_text) g of Inl e \<Rightarrow> Inl e | Inr g1 \<Rightarrow>
      (case pad_encoder i g1 of Inl e \<Rightarrow> Inl e | Inr g2 \<Rightarrow>
       (case fill_decoder i (enumerate 0 target_text) g2 of Inl e \<Rightarrow> Inl e | Inr g3 \<Rightarrow>
        (case pad_decoder_input i g3 of Inl e \<Rightarrow> Inl e | Inr g4 \<Rightarrow>
           pad_decoder_target i g4))))"

fun fill_samples :: "(nat \<times> py_str \<times> py_str) list \<Rightarrow> notebook \<Rightarrow> py_error + notebook" where
  "fill_samples [] g = Inr g"
| "fill_samples ((i, input_text, target_text) # rest) g =
     (case fill_sample i input_text target_text g of
        Inl e \<Rightarrow> Inl e
      | Inr g' \<Rightarrow> fill_samples rest g')"

text \<open>
  \<open>for i, (input_text, target_text) in enumerate(zip(input_texts, target_texts))\<close>
\<close>

definition fill_arrays :: "notebook \<Rightarrow> py_error + notebook" where
  "fill_arrays g = fill_samples (enumerate 0 (zip (input_texts g) (target_texts g))) g"

text \<open>
  Between the allocation of the arrays and the fill loops the cell has a statement that
  consists of the name \<open>w\<close>. No cell of the notebook binds this name, so evaluating it
  raises NameError.
\<close>

definition name_w :: "py_error + unit" where
  "name_w = Inl NameError"

text \<open>The vectorization cell as a whole.\<close>

definition vectorize_cell :: "py_str \<Rightarrow> py_error + notebook" where
  "vectorize_cell content =
     (case load_data content of Inl e \<Rightarrow> Inl e | Inr g \<Rightarrow>
      (case name_w of Inl e \<Rightarrow> Inl e | Inr _ \<Rightarrow> fill_arrays g))"

text \<open>
  The arguments of the training call
  \<open>model.fit([encoder_input_data, decoder_input_data], decoder_target_data, ...)\<close>.
  The model was built as \<open>keras.Model([encoder_inputs, decoder_inputs], decoder_outputs)\<close>:
  its first input feeds the encoder, its second the decoder, and the third argument of
  \<open>fit\<close> is what the decoder's output is trained towards.
\<close>

record fit_call =
  fit_encoder_inputs :: array3
  fit_decoder_inputs :: array3
  fit_targets :: array3
  fit_batch_size :: nat
  fit_epochs :: nat
  fit_validation_split :: real

definition training_call :: "notebook \<Rightarrow> fit_call" where
  "training_call g =
     \<lparr>fit_encoder_inputs = encoder_input_data g,
      fit_decoder_inputs = decoder_input_data g,
      fit_targets = decoder_target_data g,
      fit_batch_size = batch_size,
      fit_epochs = epochs,
      fit_validation_split = 0.2\<rparr>"


subsection \<open>Vocabulary for the proofs about the fill loops\<close>

text \<open>The index a lookup returns, where it succeeds.\<close>

definition code :: "(py_char, nat) dict \<Rightarrow> py_char \<Rightarrow> nat" where
  "code index c = the (map_of index c)"

text \<open>The character a row stands for: the text's own, or the padding space.\<close>

definition char_at :: "py_str \<Rightarrow> nat \<Rightarrow> py_char" where
  "char_at s t' = (if t' < length s then s ! t' else SPACE)"

text \<open>
  \<open>blk\<close> is \<open>blk0\<close> with, in every row, the entry of that row's character set
  to 1.
\<close>

definition filled_from :: "(py_char, nat) dict \<Rightarrow> py_str \<Rightarrow> array2 \<Rightarrow> array2 \<Rightarrow> bool" where
  "filled_from index s blk0 blk \<longleftrightarrow>
     length blk = length blk0 \<and>
     (\<forall>t'<length blk0. blk ! t' = (blk0 ! t')[code index (char_at s t') := 1])"

definition shaped :: "nat \<Rightarrow> nat \<Rightarrow> nat \<Rightarrow> array3 \<Rightarrow> bool" where
  "shaped a b c arr \<longleftrightarrow>
     length arr = a \<and> (\<forall>i<a. length (arr ! i) = b \<and> (\<forall>t'<b. length (arr ! i ! t') = c))"

text \<open>What makes the body of the outer fill loop run through for one sample.\<close>

definition fill_ready :: "notebook \<Rightarrow> bool" where
  "fill_ready g \<longleftrightarrow>
     shaped (length (input_texts g)) (max_encoder_seq_length g) (num_encoder_tokens g)
       (encoder_input_data g) \<and>
     shaped (length (input_texts g)) (max_decoder_seq_length g) (num_decoder_tokens g)
       (decoder_input_data g) \<and>
     shaped (length (input_texts g)) (max_decoder_seq_length g) (num_decoder_tokens g)
       (decoder_target_data g) \<and>
     (\<exists>k<num_encoder_tokens g. getitem (input_token_index g) SPACE = Inr k) \<and>
     (\<exists>k<num_decoder_tokens g. getitem (target_token_index g) SPACE = Inr k)"

definition sample_ready :: "notebook \<Rightarrow> py_str \<times> py_str \<Rightarrow> bool" where
  "sample_ready g s \<longleftrightarrow>
     fst s \<noteq> [] \<and> length (fst s) \<le> max_encoder_seq_length g \<and>
     (\<forall>ch \<in> set (fst s). \<exists>k<num_encoder_tokens g. getitem (input_token_index g) ch = Inr k) \<and>
     snd s \<noteq> [] \<and> length (snd s) \<le> max_decoder_seq_length g \<and>
     (\<forall>ch \<in> set (snd s). \<exists>k<num_decoder_tokens g. getitem (target_token_index g) ch = Inr k)"

section \<open>lstm\_seq2seq: the inference cell\<close>

text \<open>
  The globals \<open>decode_sequence\<close> reads are those of the vectorization cell and the
  four the sampling cell adds. The two Keras models are the framework's: only
  their \<open>predict\<close> is used, a function of its inputs. \<open>encoder_model\<close> has the two
  outputs \<open>[state_h_enc, state_c_enc]\<close>; \<open>decoder_model\<close> takes the target sequence
  and the two states and returns the token scores and the two new states.
\<close>

record sampling = notebook +
  encoder_model :: "array3 \<Rightarrow> array2 \<times> array2"
  decoder_model :: "array3 \<Rightarrow> array2 \<times> array2 \<Rightarrow> array3 \<times> array2 \<times> array2"
  reverse_input_char_index :: "(nat, py_char) dict"
  reverse_target_char_index :: "(nat, py_char) dict"

text \<open>\<open>dict((i, char) for char, i in index.items())\<close>\<close>

definition reverse_index :: "(py_char, nat) dict \<Rightarrow> (nat, py_char) dict" where
  "reverse_index index = py_dict (map (\<lambda>(char, i). (i, char)) index)"

text \<open>
  The sampling cell: it adds the two models, restored and rewired by the framework, and
  the two reverse lookup tables to the globals.
\<close>

definition sampling_cell ::
  "(array3 \<Rightarrow> array2 \<times> array2) \<Rightarrow> (array3 \<Rightarrow> array2 \<times> array2 \<Rightarrow> array3 \<times> array2 \<times> array2) \<Rightarrow>
   notebook \<Rightarrow> sampling" where
  "sampling_cell enc dec g =
     notebook.extend g
       (sampling.fields enc dec (reverse_index (input_token_index g))
          (reverse_index (target_token_index g)))"

text \<open>The local variables of \<open>decode_sequence\<close> that live across loop iterations.\<close>

record loop_state =
  target_seq :: array3
  states_value :: "array2 \<times> array2"
  decoded_sentence :: py_str
  stop_condition :: bool

text \<open>One run of the body of \<open>while not stop_condition\<close>.\<close>

definition loop_body :: "sampling \<Rightarrow> loop_state \<Rightarrow> py_error + loop_state" where
  "loop_body g s =
     (case decoder_model g (target_seq s) (states_value s) of (output_tokens, h, c) \<Rightarrow>
      case last_timestep output_tokens of Inl e \<Rightarrow> Inl e | Inr scores \<Rightarrow>
      case np_argmax scores of Inl e \<Rightarrow> Inl e | Inr sampled_token_index \<Rightarrow>
      case getitem (reverse_target_char_index g) sampled_token_index of Inl e \<Rightarrow> Inl e
      | Inr sampled_char \<Rightarrow>
        let sentence = decoded_sentence s @ [sampled_char];
            stop = (if sampled_char = NEWLINE \<or> length sentence > max_decoder_seq_length g
                    then True else stop_condition s)
        in case setitem3 (np_zeros3 1 1 (num_decoder_tokens g)) 0 0 sampled_token_index 1 of
             Inl e \<Rightarrow> Inl e
           | Inr tseq \<Rightarrow>
               Inr \<lparr>target_seq = tseq, states_value = (h, c),
                    decoded_sentence = sentence, stop_condition = stop\<rparr>)"

function sampling_loop :: "sampling \<Rightarrow> loop_state \<Rightarrow> py_error + loop_state" where
  "sampling_loop g s =
     (if stop_condition s then Inr s
      else case loop_body g s of Inl e \<Rightarrow> Inl e | Inr s' \<Rightarrow> sampling_loop g s')"
  by pat_completeness auto
termination
proof (relation "measure (\<lambda>(g, s). if stop_condition s then 0
         else Suc (Suc (max_decoder_seq_length g) - length (decoded_sentence s)))")
  show "wf (measure (\<lambda>(g, s). if stop_condition s then 0
         else Suc (Suc (max_decoder_seq_length g) - length (decoded_sentence s))))"
    by simp
next
  fix g :: sampling and s s' :: loop_state
  assume "\<not> stop_condition s" and b: "loop_body g s = Inr s'"
  then show "((g, s'), (g, s)) \<in> measure (\<lambda>(g, s). if stop_condition s then 0
         else Suc (Suc (max_decoder_seq_length g) - length (decoded_sentence s)))"
    by (auto simp: loop_body_def Let_def split: prod.splits sum.splits if_splits)
qed

declare sampling_loop.simps [simp del]

text \<open>The statements of \<open>decode_sequence\<close> before the loop.\<close>

definition initial_state :: "sampling \<Rightarrow> array3 \<Rightarrow> py_error + loop_state" where
  "initial_state g input_seq =
     (let sv = encoder_model g input_seq in
      case getitem (target_token_index g) TAB of Inl e \<Rightarrow> Inl e | Inr start \<Rightarrow>
      case setitem3 (np_zeros3 1 1 (num_decoder_tokens g)) 0 0 start 1 of Inl e \<Rightarrow> Inl e
      | Inr tseq \<Rightarrow>
          Inr \<lparr>target_seq = tseq, states_value = sv,
               decoded_sentence = [], stop_condition = False\<rparr>)"

definition decode_sequence :: "sampling \<Rightarrow> array3 \<Rightarrow> py_error + py_str" where
  "decode_sequence g input_seq =
     (case initial_state g input_seq of Inl e \<Rightarrow> Inl e | Inr s0 \<Rightarrow>
      case sampling_loop g s0 of Inl e \<Rightarrow> Inl e | Inr s \<Rightarrow> Inr (decoded_sentence s))"

text \<open>
  \<open>body_runs g k s\<close> executes the loop body \<open>k\<close> times from \<open>s\<close> without looking at the
  stop flag: it names the state after exactly \<open>k\<close> iterations.
\<close>

fun body_runs :: "sampling \<Rightarrow> nat \<Rightarrow> loop_state \<Rightarrow> py_error + loop_state" where
  "body_runs g 0 s = Inr s"
| "body_runs g (Suc k) s =
     (case loop_body g s of Inl e \<Rightarrow> Inl e | Inr s' \<Rightarrow> body_runs g k s')"


subsection \<open>The encoder's LSTM layer\<close>








text \<open>
  A small instance for concrete runs: three tokens (tab, newline, \<open>a\<close>), a cap of 3, an
  encoder whose state is the number of timesteps of its input, and a decoder that counts
  in \<open>h\<close>: it scores \<open>a\<close> highest while the count is below 3 and newline afterwards.
\<close>

definition toy_notebook :: notebook where
  "toy_notebook =
     \<lparr>input_texts = [[code_point (CHR ''a'')]],
      target_texts = [[TAB, code_point (CHR ''a''), NEWLINE]],
      input_characters = [code_point (CHR ''a'')],
      target_characters = [TAB, NEWLINE, code_point (CHR ''a'')],
      num_encoder_tokens = 1,
      num_decoder_tokens = 3,
      max_encoder_seq_length = 1,
      max_decoder_seq_length = 3,
      input_token_index = [(code_point (CHR ''a''), 0)],
      target_token_index = [(TAB, 0), (NEWLINE, 1), (code_point (CHR ''a''), 2)],
      encoder_input_data = np_zeros3 1 1 1,
      decoder_input_data = np_zeros3 1 3 3,
      decoder_target_data = np_zeros3 1 3 3,
      t = None\<rparr>"

definition toy :: sampling where
  "toy = sampling_cell
           (\<lambda>x. ([[real (length (concat x))]], [[0]]))
           (\<lambda>tseq (h, c).
              if sum_list (concat h) < 3
              then ([[[0, 0.2, 0.8]]], ([[sum_list (concat h) + 1]], c))
              else ([[[0.1, 0.9, 0]]], (h, c)))
           toy_notebook"



text \<open>The state before the loop when the encoder has seen one timestep.\<close>

definition toy_s0b :: loop_state where
  "toy_s0b = \<lparr>target_seq = [[[1, 0, 0]]], states_value = ([[1]], [[0]]),
              decoded_sentence = [], stop_condition = False\<rparr>"



text \<open>
  Two small data files. \<open>sample_file\<close> has two lines of three fields; the space
  occurs in an input text and in a target text. \<open>two_field_file\<close> has one line of
  two fields. \<open>sample_loaded\<close> is the state the loading statements leave on
  \<open>sample_file\<close>.
\<close>

definition sample_file :: py_str where
  "sample_file = py_str_of ''a b'' @ [TAB] @ py_str_of ''c d'' @ [TAB] @ py_str_of ''x'' @ [NEWLINE] @
                 py_str_of ''b'' @ [TAB] @ py_str_of ''c'' @ [TAB] @ py_str_of ''x'' @ [NEWLINE]"

definition two_field_file :: py_str where
  "two_field_file = py_str_of ''a b'' @ [TAB] @ py_str_of ''c d'' @ [NEWLINE]"

definition sample_loaded :: notebook where
  "sample_loaded =
     \<lparr>input_texts = [py_str_of ''a b'', py_str_of ''b''],
      target_texts = [[TAB] @ py_str_of ''c d'' @ [NEWLINE], [TAB] @ py_str_of ''c'' @ [NEWLINE]],
      input_characters = py_str_of '' ab'',
      target_characters = [TAB, NEWLINE] @ py_str_of '' cd'',
      num_encoder_tokens = 3,
      num_decoder_tokens = 5,
      max_encoder_seq_length = 3,
      max_decoder_seq_length = 5,
      input_token_index = [(SPACE, 0), (code_point (CHR ''a''), 1), (code_point (CHR ''b''), 2)],
      target_token_index = [(TAB, 0), (NEWLINE, 1), (SPACE, 2), (code_point (CHR ''c''), 3), (code_point (CHR ''d''), 4)],
      encoder_input_data = np_zeros3 2 3 3,
      decoder_input_data = np_zeros3 2 5 5,
      decoder_target_data = np_zeros3 2 5 5,
      t = None\<rparr>"

section \<open>keras\_introduction: the training call\<close>

text \<open>
  \<open>early_stopping_monitor = EarlyStopping(patience=7)\<close> and the call
  \<open>model.fit(X_train, Y_train, batch_size=1000, epochs=50,
  validation_data=(X_test, Y_test), callbacks=[early_stopping_monitor])\<close>: the values
  the notebook passes.
\<close>

record early_stopping =
  patience :: nat

definition early_stopping_monitor :: early_stopping where
  "early_stopping_monitor = \<lparr>patience = 7\<rparr>"

record mlp_fit =
  mlp_batch_size :: nat
  mlp_epochs :: nat
  mlp_callbacks :: "early_stopping list"

definition mlp_fit_call :: mlp_fit where
  "mlp_fit_call =
     \<lparr>mlp_batch_size = 1000, mlp_epochs = 50, mlp_callbacks = [early_stopping_monitor]\<rparr>"

text \<open>
  Modelled from the spec: the framework's training loop and its early-stopping callback
  are not in the repository, which only calls them. The spec describes early stopping as
  "a training callback that halts optimization once a monitored validation metric stops
  improving for a set number of epochs". The loop below runs one epoch at a time, up to
  the configured number. After each epoch the callback compares the monitored metric
  (a validation loss: lower is better) with the best value seen so far; an improvement
  resets its counter, anything else increments it, and when the counter reaches the
  patience the loop stops. \<open>metric e\<close> is the monitored value after epoch \<open>e\<close>
  (counted from 0); the result is the number of epochs run.
\<close>

fun training_loop ::
  "nat \<Rightarrow> nat \<Rightarrow> (nat \<Rightarrow> real) \<Rightarrow> nat \<Rightarrow> real option \<Rightarrow> nat \<Rightarrow> nat" where
  "training_loop 0 p metric epoch best wait = epoch"
| "training_loop (Suc remaining) p metric epoch best wait =
     (let current = metric epoch;
          better = (case best of None \<Rightarrow> True | Some b \<Rightarrow> current < b);
          best' = (if better then Some current else best);
          wait' = (if better then 0 else wait + 1)
      in if wait' \<ge> p then Suc epoch
         else training_loop remaining p metric (Suc epoch) best' wait')"

text \<open>The training call with its callbacks; without a callback all epochs run.\<close>

definition epochs_run :: "mlp_fit \<Rightarrow> (nat \<Rightarrow> real) \<Rightarrow> nat" where
  "epochs_run call metric =
     (case mlp_callbacks call of
        [] \<Rightarrow> mlp_epochs call
      | cb # _ \<Rightarrow> training_loop (mlp_epochs call) (patience cb) metric 0 None 0)"

text \<open>
  Epoch \<open>e\<close> improved when its metric is below that of every earlier epoch; training
  has stalled after \<open>k\<close> epochs when the last \<open>p\<close> of them did not improve.
\<close>

definition improved :: "(nat \<Rightarrow> real) \<Rightarrow> nat \<Rightarrow> bool" where
  "improved metric e \<longleftrightarrow> (\<forall>e'<e. metric e < metric e')"

definition stalled :: "nat \<Rightarrow> (nat \<Rightarrow> real) \<Rightarrow> nat \<Rightarrow> bool" where
  "stalled p metric k \<longleftrightarrow> p \<le> k \<and> (\<forall>e. k - p \<le> e \<and> e < k \<longrightarrow> \<not> improved metric e)"

definition best_upto :: "(nat \<Rightarrow> real) \<Rightarrow> nat \<Rightarrow> real option" where
  "best_upto metric e = (if e = 0 then None else Some (Min (metric ` {..<e})))"

text \<open>
  Validation losses for a concrete run: they fall for three epochs and then stay at
  the value reached.
\<close>

definition plateau :: "nat \<Rightarrow> real" where
  "plateau e = (if e < 3 then 3 - real e else 1)"


section \<open>keras\_introduction: preprocessing\<close>

text \<open>
  The image arrays \<open>cifar10.load_data()\<close> returns have four axes (image, row, column,
  channel) and unsigned 8-bit entries. \<open>flatten4\<close> lists the entries in row-major
  order, the order \<open>reshape\<close> reads them in.
\<close>

type_synonym pixels = "8 word list list list list"

definition flatten4 :: "'a list list list list \<Rightarrow> 'a list" where
  "flatten4 X = concat (concat (concat X))"

text \<open>
  \<open>X.reshape(rows, cols)\<close>: ValueError unless the array has \<open>rows * cols\<close>
  entries; otherwise row \<open>i\<close> holds the entries \<open>i * cols, \<dots>, i * cols + cols - 1\<close>.
\<close>

definition np_reshape2 :: "nat \<Rightarrow> nat \<Rightarrow> 'a list \<Rightarrow> py_error + 'a list list" where
  "np_reshape2 rows cols flat =
     (if length flat = rows * cols
      then Inr (map (\<lambda>i. take cols (drop (i * cols) flat)) [0..<rows])
      else Inl ValueError)"

text \<open>
  A float64 value is a real number, or \<open>None\<close> for a value that is not finite (nan,
  inf); rounding is not modelled. Arithmetic on an integer array with a float scalar
  is carried out in float64.
\<close>

type_synonym float = "real option"

definition fsub :: "float \<Rightarrow> float \<Rightarrow> float" where
  "fsub a b = (case (a, b) of (Some x, Some y) \<Rightarrow> Some (x - y) | _ \<Rightarrow> None)"

definition fdiv :: "float \<Rightarrow> float \<Rightarrow> float" where
  "fdiv a b =
     (case (a, b) of (Some x, Some y) \<Rightarrow> (if y = 0 then None else Some (x / y)) | _ \<Rightarrow> None)"

definition as_float :: "8 word \<Rightarrow> real" where
  "as_float w = real (unat w)"

text \<open>\<open>np.mean(A)\<close> and \<open>np.std(A)\<close> without an axis: over all entries of \<open>A\<close>.\<close>

definition np_mean :: "real list list \<Rightarrow> float" where
  "np_mean A = fdiv (Some (sum_list (concat A))) (Some (real (length (concat A))))"

definition np_std :: "real list list \<Rightarrow> float" where
  "np_std A =
     (case np_mean A of
        None \<Rightarrow> None
      | Some m \<Rightarrow>
         (case fdiv (Some (sum_list (map (\<lambda>x. (x - m)\<^sup>2) (concat A))))
                    (Some (real (length (concat A)))) of
            None \<Rightarrow> None
          | Some v \<Rightarrow> Some (sqrt v)))"

text \<open>\<open>(A - np.mean(A)) / np.std(A)\<close>, entry by entry.\<close>

definition gaussian :: "real list list \<Rightarrow> float list list" where
  "gaussian A = map (map (\<lambda>x. fdiv (fsub (Some x) (np_mean A)) (np_std A))) A"

text \<open>
  The preprocessing statements on the images: the two reshapes, then the two
  normalizations.
\<close>

definition preprocess :: "pixels \<Rightarrow> pixels \<Rightarrow> py_error + float list list \<times> float list list" where
  "preprocess X_train X_test =
     (case np_reshape2 50000 3072 (flatten4 X_train) of
        Inl e \<Rightarrow> Inl e
      | Inr A \<Rightarrow>
         (case np_reshape2 10000 3072 (flatten4 X_test) of
            Inl e \<Rightarrow> Inl e
          | Inr B \<Rightarrow> Inr (gaussian (map (map as_float) A), gaussian (map (map as_float) B))))"

text \<open>An array of shape \<open>(n, a, b, c)\<close>.\<close>

definition has_shape4 :: "nat \<Rightarrow> nat \<Rightarrow> nat \<Rightarrow> nat \<Rightarrow> 'a list list list list \<Rightarrow> bool" where
  "has_shape4 n a b c X \<longleftrightarrow>
     length X = n \<and>
     (\<forall>img \<in> set X. length img = a \<and>
        (\<forall>row \<in> set img. length row = b \<and> (\<forall>px \<in> set row. length px = c)))"

text \<open>
  The mean and the variance of all entries of an image array, written out over the
  pixel values (the numbers 0 to 255 the bytes stand for) of the flattened array.
\<close>

definition array_mean :: "pixels \<Rightarrow> real" where
  "array_mean X =
     sum_list (map (\<lambda>w. real (unat w)) (flatten4 X)) / real (length (flatten4 X))"

definition array_variance :: "pixels \<Rightarrow> real" where
  "array_variance X =
     sum_list (map (\<lambda>w. (real (unat w) - array_mean X)\<^sup>2) (flatten4 X)) /
     real (length (flatten4 X))"

text \<open>
  Image arrays for a concrete run: \<open>n\<close> images whose pixels all have the channel
  values \<open>px\<close>.
\<close>

definition striped :: "8 word list \<Rightarrow> nat \<Rightarrow> pixels" where
  "striped px n = replicate n (replicate 32 (replicate 32 px))"

section \<open>Properties of the inference loop\<close>

lemma loop_body_step:
  assumes "loop_body g s = Inr s'" and "\<not> stop_condition s"
  shows "\<exists>ch. decoded_sentence s' = decoded_sentence s @ [ch] \<and>
      stop_condition s' = (ch = NEWLINE \<or> length (decoded_sentence s') > max_decoder_seq_length g)"
  using assms
  by (auto simp: loop_body_def Let_def split: prod.splits sum.splits if_splits)

text \<open>
  From a state whose flag is clear, whose sentence holds no newline and is within the cap,
  the loop runs the body some \<open>k \<ge> 1\<close> times. Before each of the \<open>k\<close> runs the flag is
  clear, no newline has been sampled yet and the sentence is within the cap; every run
  appends one character; the \<open>k\<close>-th run either raises or is the first to sample the
  newline or to pass the cap, and it sets the flag. \<open>k\<close> is bounded by the room left
  under the cap.
\<close>

lemma sampling_loop_first_stop:
  "\<not> stop_condition s \<Longrightarrow> NEWLINE \<notin> set (decoded_sentence s) \<Longrightarrow>
   length (decoded_sentence s) \<le> max_decoder_seq_length g \<Longrightarrow>
   \<exists>k. 1 \<le> k \<and> length (decoded_sentence s) + k \<le> Suc (max_decoder_seq_length g) \<and>
       sampling_loop g s = body_runs g k s \<and>
       (\<forall>j<k. \<exists>sj. body_runs g j s = Inr sj \<and> \<not> stop_condition sj \<and>
                 length (decoded_sentence sj) = length (decoded_sentence s) + j \<and>
                 NEWLINE \<notin> set (decoded_sentence sj) \<and>
                 length (decoded_sentence sj) \<le> max_decoder_seq_length g) \<and>
       (\<forall>s'. body_runs g k s = Inr s' \<longrightarrow> stop_condition s' \<and>
                 length (decoded_sentence s') = length (decoded_sentence s) + k \<and>
                 NEWLINE \<notin> set (butlast (decoded_sentence s')) \<and>
                 (last (decoded_sentence s') = NEWLINE \<or>
                  max_decoder_seq_length g < length (decoded_sentence s')))"
proof (induction g s rule: sampling_loop.induct)
  case (1 g s)
  note ns = "1.prems"(1) and nl = "1.prems"(2) and le = "1.prems"(3)
  have zero: "\<exists>sj. body_runs g 0 s = Inr sj \<and> \<not> stop_condition sj \<and>
                 length (decoded_sentence sj) = length (decoded_sentence s) + 0 \<and>
                 NEWLINE \<notin> set (decoded_sentence sj) \<and>
                 length (decoded_sentence sj) \<le> max_decoder_seq_length g"
    using ns nl le by simp
  show ?case
  proof (cases "loop_body g s")
    case (Inl e)
    then have "sampling_loop g s = body_runs g 1 s"
      using ns by (simp add: sampling_loop.simps)
    then show ?thesis using Inl zero le
      by (intro exI[of _ 1]) simp
  next
    case (Inr s')
    from loop_body_step [OF Inr ns] obtain ch where
      ch: "decoded_sentence s' = decoded_sentence s @ [ch]"
      "stop_condition s' = (ch = NEWLINE \<or> length (decoded_sentence s') > max_decoder_seq_length g)"
      by blast
    show ?thesis
    proof (cases "stop_condition s'")
      case True
      then have "sampling_loop g s = Inr s'"
        using Inr ns by (simp add: sampling_loop.simps)
      then show ?thesis using Inr zero True ch le nl
        by (intro exI[of _ 1]) auto
    next
      case False
      have len: "length (decoded_sentence s') = Suc (length (decoded_sentence s))"
        "length (decoded_sentence s') \<le> max_decoder_seq_length g"
        and nl': "NEWLINE \<notin> set (decoded_sentence s')"
        using ch False nl by auto
      from "1.IH" [OF ns Inr False nl' len(2)] obtain k where
        k: "1 \<le> k" "length (decoded_sentence s') + k \<le> Suc (max_decoder_seq_length g)"
        "sampling_loop g s' = body_runs g k s'"
        "\<forall>j<k. \<exists>sj. body_runs g j s' = Inr sj \<and> \<not> stop_condition sj \<and>
                 length (decoded_sentence sj) = length (decoded_sentence s') + j \<and>
                 NEWLINE \<notin> set (decoded_sentence sj) \<and>
                 length (decoded_sentence sj) \<le> max_decoder_seq_length g"
        "\<forall>s''. body_runs g k s' = Inr s'' \<longrightarrow> stop_condition s'' \<and>
                 length (decoded_sentence s'') = length (decoded_sentence s') + k \<and>
                 NEWLINE \<notin> set (butlast (decoded_sentence s'')) \<and>
                 (last (decoded_sentence s'') = NEWLINE \<or>
                  max_decoder_seq_length g < length (decoded_sentence s''))"
        by blast
      have a: "sampling_loop g s = body_runs g (Suc k) s"
        using Inr ns k(3) by (simp add: sampling_loop.simps)
      have b: "length (decoded_sentence s) + Suc k \<le> Suc (max_decoder_seq_length g)"
        using k(2) len by simp
      have c: "\<exists>sj. body_runs g j s = Inr sj \<and> \<not> stop_condition sj \<and>
                 length (decoded_sentence sj) = length (decoded_sentence s) + j \<and>
                 NEWLINE \<notin> set (decoded_sentence sj) \<and>
                 length (decoded_sentence sj) \<le> max_decoder_seq_length g" if "j < Suc k" for j
      proof (cases j)
        case 0
        then show ?thesis using zero by simp
      next
        case (Suc i)
        then have "i < k" using that by simp
        with k(4) obtain sj where "body_runs g i s' = Inr sj" "\<not> stop_condition sj"
          "length (decoded_sentence sj) = length (decoded_sentence s') + i"
          "NEWLINE \<notin> set (decoded_sentence sj)"
          "length (decoded_sentence sj) \<le> max_decoder_seq_length g" by blast
        then show ?thesis using Suc Inr len by simp
      qed
      have d: "\<forall>s''. body_runs g (Suc k) s = Inr s'' \<longrightarrow> stop_condition s'' \<and>
                 length (decoded_sentence s'') = length (decoded_sentence s) + Suc k \<and>
                 NEWLINE \<notin> set (butlast (decoded_sentence s'')) \<and>
                 (last (decoded_sentence s'') = NEWLINE \<or>
                  max_decoder_seq_length g < length (decoded_sentence s''))"
        using k(5) Inr len by auto
      show ?thesis
        using a b c d by (intro exI[of _ "Suc k"]) (auto simp del: body_runs.simps)
    qed
  qed
qed

lemma initial_state_fresh:
  "initial_state g input_seq = Inr s0 \<Longrightarrow> \<not> stop_condition s0 \<and> decoded_sentence s0 = []"
  by (auto simp: initial_state_def Let_def split: sum.splits)

text \<open>
  Claim C1. \<open>decode_sequence\<close> returns for every input sequence, and its loop stops at
  the first sampled newline or as soon as the sentence passes the cap. Either the
  statements before the loop raise, and so does the call; or the loop runs its body \<open>k\<close>
  times with \<open>1 \<le> k \<le> max_decoder_seq_length + 1\<close>. Before each of these runs the flag
  is clear, the sentence has as many characters as runs were made, none of them is the
  newline sentinel, and their number is within the cap: no run follows a sampled
  sentinel or a sentence longer than the cap. After the \<open>k\<close>-th run the body has either
  raised or set the flag; the sentence then has \<open>k\<close> characters, the sentinel occurs
  nowhere before its last character, it ends in the sentinel or is longer than the cap,
  and it is the value returned.
\<close>

theorem decode_sequence_terminates:
  "case initial_state g input_seq of
     Inl e \<Rightarrow> decode_sequence g input_seq = Inl e
   | Inr s0 \<Rightarrow>
      (\<exists>k. 1 \<le> k \<and> k \<le> max_decoder_seq_length g + 1 \<and>
        sampling_loop g s0 = body_runs g k s0 \<and>
        (\<forall>j<k. \<exists>sj. body_runs g j s0 = Inr sj \<and> \<not> stop_condition sj \<and>
                  length (decoded_sentence sj) = j \<and>
                  NEWLINE \<notin> set (decoded_sentence sj) \<and>
                  j \<le> max_decoder_seq_length g) \<and>
        (case body_runs g k s0 of
           Inl e \<Rightarrow> decode_sequence g input_seq = Inl e
         | Inr s' \<Rightarrow> stop_condition s' \<and> length (decoded_sentence s') = k \<and>
             NEWLINE \<notin> set (butlast (decoded_sentence s')) \<and>
             (last (decoded_sentence s') = NEWLINE \<or>
              max_decoder_seq_length g < length (decoded_sentence s')) \<and>
             decode_sequence g input_seq = Inr (decoded_sentence s')))"
proof (cases "initial_state g input_seq")
  case (Inl e)
  then show ?thesis by (simp add: decode_sequence_def)
next
  case (Inr s0)
  note fresh = initial_state_fresh [OF Inr]
  from sampling_loop_first_stop [of s0 g] fresh obtain k where
    k: "1 \<le> k" "k \<le> max_decoder_seq_length g + 1" "sampling_loop g s0 = body_runs g k s0"
      "\<forall>j<k. \<exists>sj. body_runs g j s0 = Inr sj \<and> \<not> stop_condition sj \<and>
                length (decoded_sentence sj) = j \<and>
                NEWLINE \<notin> set (decoded_sentence sj) \<and>
                length (decoded_sentence sj) \<le> max_decoder_seq_length g"
      "\<forall>s'. body_runs g k s0 = Inr s' \<longrightarrow> stop_condition s' \<and>
                length (decoded_sentence s') = k \<and>
                NEWLINE \<notin> set (butlast (decoded_sentence s')) \<and>
                (last (decoded_sentence s') = NEWLINE \<or>
                 max_decoder_seq_length g < length (decoded_sentence s'))"
    by auto
  have j: "\<forall>j<k. \<exists>sj. body_runs g j s0 = Inr sj \<and> \<not> stop_condition sj \<and>
                  length (decoded_sentence sj) = j \<and>
                  NEWLINE \<notin> set (decoded_sentence sj) \<and>
                  j \<le> max_decoder_seq_length g"
  proof (intro allI impI)
    fix j assume "j < k"
    with k(4) obtain sj where "body_runs g j s0 = Inr sj" "\<not> stop_condition sj"
      "length (decoded_sentence sj) = j" "NEWLINE \<notin> set (decoded_sentence sj)"
      "length (decoded_sentence sj) \<le> max_decoder_seq_length g" by blast
    then show "\<exists>sj. body_runs g j s0 = Inr sj \<and> \<not> stop_condition sj \<and>
                  length (decoded_sentence sj) = j \<and>
                  NEWLINE \<notin> set (decoded_sentence sj) \<and>
                  j \<le> max_decoder_seq_length g" by auto
  qed
  have "case body_runs g k s0 of
           Inl e \<Rightarrow> decode_sequence g input_seq = Inl e
         | Inr s' \<Rightarrow> stop_condition s' \<and> length (decoded_sentence s') = k \<and>
             NEWLINE \<notin> set (butlast (decoded_sentence s')) \<and>
             (last (decoded_sentence s') = NEWLINE \<or>
              max_decoder_seq_length g < length (decoded_sentence s')) \<and>
             decode_sequence g input_seq = Inr (decoded_sentence s')"
    using k(3,5) Inr by (auto simp: decode_sequence_def split: sum.splits)
  with k(1,2,3) j Inr show ?thesis by auto
qed

lemma toy_fields:
  "max_decoder_seq_length toy = 3"
  "num_decoder_tokens toy = 3"
  "encoder_model toy = (\<lambda>x. ([[real (length (concat x))]], [[0]]))"
  "reverse_target_char_index toy = [(0, TAB), (1, NEWLINE), (2, code_point (CHR ''a''))]"
  by (simp_all add: toy_def sampling_cell_def toy_notebook_def notebook.defs sampling.defs
      reverse_index_def py_dict_def TAB_def NEWLINE_def)

lemma toy_initial_state_b: "initial_state toy [[[1, 0]]] = Inr toy_s0b"
  by code_simp

lemma toy_decodes_b:
  "decode_sequence toy [[[1, 0]]] = Inr [code_point (CHR ''a''), code_point (CHR ''a''), NEWLINE]"
  by code_simp

theorem decode_sequence_terminates_witness:
  "initial_state toy [[[1, 0]]] = Inr toy_s0b \<and> max_decoder_seq_length toy = 3 \<and>
   sampling_loop toy toy_s0b = body_runs toy 3 toy_s0b \<and>
   (\<exists>s'. body_runs toy 3 toy_s0b = Inr s' \<and> stop_condition s' \<and>
      decoded_sentence s' = [code_point (CHR ''a''), code_point (CHR ''a''), NEWLINE]) \<and>
   (\<exists>s2. body_runs toy 2 toy_s0b = Inr s2 \<and> \<not> stop_condition s2 \<and>
      NEWLINE \<notin> set (decoded_sentence s2))"
proof -
  from decode_sequence_terminates [of toy "[[[1, 0]]]"] toy_initial_state_b obtain k where
    k: "1 \<le> k" "k \<le> max_decoder_seq_length toy + 1"
      "sampling_loop toy toy_s0b = body_runs toy k toy_s0b"
      "\<forall>j<k. \<exists>sj. body_runs toy j toy_s0b = Inr sj \<and> \<not> stop_condition sj \<and>
                  length (decoded_sentence sj) = j \<and>
                  NEWLINE \<notin> set (decoded_sentence sj) \<and>
                  j \<le> max_decoder_seq_length toy"
      "case body_runs toy k toy_s0b of
           Inl e \<Rightarrow> decode_sequence toy [[[1, 0]]] = Inl e
         | Inr s' \<Rightarrow> stop_condition s' \<and> length (decoded_sentence s') = k \<and>
             NEWLINE \<notin> set (butlast (decoded_sentence s')) \<and>
             (last (decoded_sentence s') = NEWLINE \<or>
              max_decoder_seq_length toy < length (decoded_sentence s')) \<and>
             decode_sequence toy [[[1, 0]]] = Inr (decoded_sentence s')"
    by auto
  from k(5) toy_decodes_b obtain s' where
    s': "body_runs toy k toy_s0b = Inr s'" "stop_condition s'"
      "length (decoded_sentence s') = k"
      "decoded_sentence s' = [code_point (CHR ''a''), code_point (CHR ''a''), NEWLINE]"
    by (auto split: sum.splits)
  then have k3: "k = 3" by simp
  have "2 < k" using k3 by simp
  with k(4) have "\<exists>s2. body_runs toy 2 toy_s0b = Inr s2 \<and> \<not> stop_condition s2 \<and>
      NEWLINE \<notin> set (decoded_sentence s2)"
    by blast
  with k(3) s' k3 toy_initial_state_b toy_fields(1) show ?thesis by auto
qed


subsection \<open>Argmax sampling\<close>



lemma one_hot_nth:
  "j < n \<Longrightarrow> one_hot n k ! j = (if j = k then 1 else 0)"
  by (simp add: one_hot_def nth_list_update)





subsection \<open>The input is read through the encoder only\<close>








subsection \<open>Length and sentinel of the returned string\<close>

lemma sampling_loop_result:
  "\<not> stop_condition s \<Longrightarrow> NEWLINE \<notin> set (decoded_sentence s) \<Longrightarrow>
   length (decoded_sentence s) \<le> max_decoder_seq_length g \<Longrightarrow>
   sampling_loop g s = Inr s' \<Longrightarrow>
   length (decoded_sentence s') \<le> max_decoder_seq_length g + 1 \<and>
   decoded_sentence s' \<noteq> [] \<and>
   NEWLINE \<notin> set (butlast (decoded_sentence s')) \<and>
   (length (decoded_sentence s') \<le> max_decoder_seq_length g \<longrightarrow>
      last (decoded_sentence s') = NEWLINE)"
proof (induction g s rule: sampling_loop.induct)
  case (1 g s)
  from "1.prems" obtain s1 where b: "loop_body g s = Inr s1"
    and l: "sampling_loop g s1 = Inr s'"
    by (auto simp: sampling_loop.simps [of g s] split: sum.splits)
  from loop_body_step [OF b "1.prems"(1)] obtain ch where
    ch: "decoded_sentence s1 = decoded_sentence s @ [ch]"
    "stop_condition s1 = (ch = NEWLINE \<or> length (decoded_sentence s1) > max_decoder_seq_length g)"
    by blast
  show ?case
  proof (cases "stop_condition s1")
    case True
    then have "s' = s1" using l by (simp add: sampling_loop.simps [of g s1])
    then show ?thesis using ch True "1.prems" by auto
  next
    case False
    show ?thesis
    proof (rule "1.IH" [OF "1.prems"(1) b False _ _ l])
      show "NEWLINE \<notin> set (decoded_sentence s1)" using ch False "1.prems" by auto
      show "length (decoded_sentence s1) \<le> max_decoder_seq_length g" using ch False by auto
    qed
  qed
qed

text \<open>
  Claim C8, as stated, says that only a run in which no sentinel is sampled returns a
  string longer than \<open>max_decoder_seq_length\<close>. The toy decoder samples \<open>a\<close> three
  times and then the newline: the cap is 3, the returned string has 4 characters and
  the sentinel was sampled.
\<close>

theorem sentinel_beyond_cap_counterexample:
  "decode_sequence toy [[]] = Inr [code_point (CHR ''a''), code_point (CHR ''a''), code_point (CHR ''a''), NEWLINE] \<and>
   max_decoder_seq_length toy < length [code_point (CHR ''a''), code_point (CHR ''a''), code_point (CHR ''a''), NEWLINE] \<and>
   NEWLINE \<in> set [code_point (CHR ''a''), code_point (CHR ''a''), code_point (CHR ''a''), NEWLINE]"
proof -
  have "decode_sequence toy [[]] = Inr [code_point (CHR ''a''), code_point (CHR ''a''), code_point (CHR ''a''), NEWLINE]"
    by code_simp
  then show ?thesis by (simp add: toy_fields)
qed

text \<open>
  Claim C8, amended. A string returned by \<open>decode_sequence\<close> is non-empty and has at
  most \<open>max_decoder_seq_length + 1\<close> characters. The sentinel occurs in it at most as
  its last character, where it is kept. A string within the cap ends in the sentinel;
  so a string longer than the cap has exactly \<open>max_decoder_seq_length + 1\<close>
  characters and no sentinel among the first \<open>max_decoder_seq_length\<close>, while its
  last character may still be the sentinel, sampled in the final iteration.
\<close>

theorem decoded_sentence_length:
  assumes "decode_sequence g input_seq = Inr r"
  shows "r \<noteq> [] \<and> length r \<le> max_decoder_seq_length g + 1 \<and>
         NEWLINE \<notin> set (butlast r) \<and>
         (length r \<le> max_decoder_seq_length g \<longrightarrow> last r = NEWLINE) \<and>
         (max_decoder_seq_length g < length r \<longrightarrow>
            length r = max_decoder_seq_length g + 1 \<and>
            NEWLINE \<notin> set (take (max_decoder_seq_length g) r))"
proof -
  from assms obtain s0 s' where i: "initial_state g input_seq = Inr s0"
    and l: "sampling_loop g s0 = Inr s'" and r: "r = decoded_sentence s'"
    by (auto simp: decode_sequence_def split: sum.splits)
  from initial_state_fresh [OF i] have f: "\<not> stop_condition s0" "decoded_sentence s0 = []"
    by simp_all
  have "length (decoded_sentence s') \<le> max_decoder_seq_length g + 1 \<and>
        decoded_sentence s' \<noteq> [] \<and> NEWLINE \<notin> set (butlast (decoded_sentence s')) \<and>
        (length (decoded_sentence s') \<le> max_decoder_seq_length g \<longrightarrow>
           last (decoded_sentence s') = NEWLINE)"
    by (rule sampling_loop_result [OF f(1) _ _ l]) (simp_all add: f(2))
  with r have a: "r \<noteq> []" "length r \<le> max_decoder_seq_length g + 1"
    "NEWLINE \<notin> set (butlast r)"
    "length r \<le> max_decoder_seq_length g \<longrightarrow> last r = NEWLINE"
    by simp_all
  have "take (max_decoder_seq_length g) r = butlast r"
    if "max_decoder_seq_length g < length r"
  proof -
    from that a(2) have "length r = Suc (max_decoder_seq_length g)" by simp
    then show ?thesis by (simp add: butlast_conv_take)
  qed
  with a show ?thesis by auto
qed

theorem decoded_sentence_length_witness:
  "decode_sequence toy [[[1, 0]]] = Inr [code_point (CHR ''a''), code_point (CHR ''a''), NEWLINE] \<and>
   length [code_point (CHR ''a''), code_point (CHR ''a''), NEWLINE] \<le> max_decoder_seq_length toy + 1 \<and>
   NEWLINE \<notin> set (butlast [code_point (CHR ''a''), code_point (CHR ''a''), NEWLINE])"
proof -
  have d: "decode_sequence toy [[[1, 0]]] = Inr [code_point (CHR ''a''), code_point (CHR ''a''), NEWLINE]"
    by code_simp
  from decoded_sentence_length [OF d] d show ?thesis by blast
qed

section \<open>Properties of the vectorization cell\<close>

subsection \<open>Dictionaries and the reading loop\<close>


lemma update_fresh: "k \<notin> fst ` set al \<Longrightarrow> AList.update k v al = al @ [(k, v)]"
  by (induction al) auto

lemma py_dict_distinct: "distinct (map fst kvs) \<Longrightarrow> py_dict kvs = kvs"
proof (induction kvs rule: rev_induct)
  case Nil
  then show ?case by (simp add: py_dict_def)
next
  case (snoc x xs)
  then have "py_dict xs = xs" by simp
  moreover from snoc.prems have "fst x \<notin> fst ` set xs" by auto
  ultimately show ?case
    by (cases x) (simp add: py_dict_def update_fresh)
qed

lemma token_index_zip:
  assumes "distinct cs"
  shows "token_index cs = zip cs [0..<length cs]"
proof -
  have m: "map (\<lambda>(i, char). (char, i)) (enumerate 0 cs) = zip cs [0..<length cs]"
    by (simp add: enumerate_eq_zip zip_commute [of cs])
  have "map fst (zip cs [0..<length cs]) = cs" by simp
  with assms show ?thesis
    unfolding token_index_def m by (simp add: py_dict_distinct)
qed

lemma reverse_index_token_index:
  assumes "distinct cs"
  shows "reverse_index (token_index cs) = zip [0..<length cs] cs"
proof -
  have m: "map (\<lambda>(char, i). (i, char)) (zip cs [0..<length cs]) = zip [0..<length cs] cs"
    by (simp add: zip_commute [of "[0..<length cs]"])
  show ?thesis
    unfolding reverse_index_def token_index_zip [OF assms] m
    by (simp add: py_dict_distinct)
qed

lemma token_index_nth:
  assumes "distinct cs" "k < length cs"
  shows "getitem (token_index cs) (cs ! k) = Inr k"
  using assms map_of_zip_nth [of cs "[0..<length cs]" k]
  by (simp add: getitem_def token_index_zip)

lemma token_index_Inr:
  assumes "distinct cs" "getitem (token_index cs) c = Inr k"
  shows "k < length cs \<and> cs ! k = c"
proof -
  from assms have "map_of (zip cs [0..<length cs]) c = Some k"
    by (auto simp: getitem_def token_index_zip split: option.splits)
  then have "(c, k) \<in> set (zip cs [0..<length cs])" by (rule map_of_SomeD)
  then show ?thesis by (auto simp: in_set_zip)
qed

lemma reverse_index_nth:
  assumes "distinct cs" "k < length cs"
  shows "getitem (reverse_index (token_index cs)) k = Inr (cs ! k)"
  using assms map_of_zip_nth [of "[0..<length cs]" cs k]
  by (simp add: getitem_def reverse_index_token_index)

lemma add_chars_eq: "add_chars str cs = cs \<union> set str"
  unfolding add_chars_def
  by (induction str arbitrary: cs) auto

lemma py_max_Inr:
  assumes "py_max xs = Inr m"
  shows "xs \<noteq> []" "\<forall>x \<in> set xs. x \<le> m"
proof -
  have b: "\<forall>y \<in> set (x # rest). y \<le> foldl max x rest" for x :: nat and rest
  proof (induction rest arbitrary: x)
    case Nil
    then show ?case by simp
  next
    case (Cons a rest)
    have "\<forall>y \<in> set (max x a # rest). y \<le> foldl max (max x a) rest" by (rule Cons.IH)
    then show ?case by auto
  qed
  from assms show "xs \<noteq> []" by (auto simp: py_max_def)
  from assms b show "\<forall>x \<in> set xs. x \<le> m"
    by (cases xs) (auto simp: py_max_def)
qed

lemma py_max_nonempty: "xs \<noteq> [] \<Longrightarrow> \<exists>m. py_max xs = Inr m"
  by (cases xs) (simp_all add: py_max_def)

text \<open>What the loop over the lines computes.\<close>

lemma unpack3_Inr: "unpack3 parts = Inr (a, b, c) \<Longrightarrow> parts = [a, b, c]"
  by (auto simp: unpack3_def split: list.splits)

lemma read_lines_Inr:
  assumes "read_lines ls (its, tts, ic, tc) = Inr (its', tts', ic', tc')"
  shows "(\<forall>l \<in> set ls. length (split_on TAB l) = 3) \<and>
     its' = its @ map (\<lambda>l. split_on TAB l ! 0) ls \<and>
     tts' = tts @ map (\<lambda>l. [TAB] @ split_on TAB l ! 1 @ [NEWLINE]) ls \<and>
     ic' = ic \<union> \<Union> (set ` set (map (\<lambda>l. split_on TAB l ! 0) ls)) \<and>
     tc' = tc \<union> \<Union> (set ` set (map (\<lambda>l. [TAB] @ split_on TAB l ! 1 @ [NEWLINE]) ls))"
  using assms
proof (induction ls arbitrary: its tts ic tc)
  case Nil
  then show ?case by simp
next
  case (Cons l ls)
  from Cons.prems obtain a b c where
    u: "unpack3 (split_on TAB l) = Inr (a, b, c)"
    and r: "read_lines ls (its @ [a], tts @ [[TAB] @ b @ [NEWLINE]],
              add_chars a ic, add_chars ([TAB] @ b @ [NEWLINE]) tc) = Inr (its', tts', ic', tc')"
    by (auto simp: read_line_def Let_def split: sum.splits prod.splits)
  from unpack3_Inr [OF u] have sp: "split_on TAB l = [a, b, c]" .
  from Cons.IH [OF r] sp show ?case
    by (auto simp: add_chars_eq)
qed

lemma read_lines_succeeds:
  assumes "\<forall>l \<in> set ls. length (split_on TAB l) = 3"
  shows "\<exists>r'. read_lines ls r = Inr r'"
  using assms
proof (induction ls arbitrary: r)
  case Nil
  show ?case by (intro exI[of _ r]) simp
next
  case (Cons l ls)
  then have "length (split_on TAB l) = 3" by simp
  then obtain a b c where "split_on TAB l = [a, b, c]"
    by (cases "split_on TAB l" rule: list.exhaust)
       (auto simp: length_Suc_conv numeral_3_eq_3)
  moreover obtain its tts ic tc where "r = (its, tts, ic, tc)"
    by (rule prod_cases4)
  ultimately obtain r1 where "read_line l r = Inr r1"
    by (simp add: read_line_def unpack3_def Let_def)
  with Cons show ?case by simp
qed


subsection \<open>What the fill loops write\<close>


lemma getitem_code: "getitem index c = Inr k \<Longrightarrow> code index c = k"
  by (auto simp: getitem_def code_def split: option.splits)

lemma setitem3_Inr:
  "setitem3 arr i t' k v = Inr a \<Longrightarrow>
     i < length arr \<and> t' < length (arr ! i) \<and> k < length (arr ! i ! t') \<and>
     a = arr[i := (arr ! i)[t' := (arr ! i ! t')[k := v]]]"
  by (auto simp: setitem3_def split: if_splits)

lemma fill_encoder_effect:
  "fill_encoder i (enumerate p cs) g = Inr g' \<Longrightarrow>
   \<exists>A. g' = g\<lparr>t := (if cs = [] then t g else Some (p + length cs - 1)),
                encoder_input_data := A\<rparr> \<and>
       length A = length (encoder_input_data g) \<and>
       (\<forall>i'. i' \<noteq> i \<longrightarrow> A ! i' = encoder_input_data g ! i') \<and>
       length (A ! i) = length (encoder_input_data g ! i) \<and>
       (\<forall>t'. A ! i ! t' =
          (if p \<le> t' \<and> t' < p + length cs
           then (encoder_input_data g ! i ! t')[code (input_token_index g) (cs ! (t' - p)) := 1]
           else encoder_input_data g ! i ! t'))"
proof (induction cs arbitrary: p g)
  case Nil
  then show ?case by (intro exI[of _ "encoder_input_data g"]) auto
next
  case (Cons c cs)
  let ?E = "encoder_input_data g"
  from Cons.prems obtain k arr where
    k: "getitem (input_token_index g) c = Inr k"
    and arr: "setitem3 ?E i p k 1 = Inr arr"
    and rest: "fill_encoder i (enumerate (Suc p) cs) (g\<lparr>t := Some p, encoder_input_data := arr\<rparr>) = Inr g'"
    by (auto split: sum.splits)
  note s = setitem3_Inr [OF arr]
  let ?g1 = "g\<lparr>t := Some p, encoder_input_data := arr\<rparr>"
  from Cons.IH [OF rest] obtain A where
    A0: "g' = ?g1\<lparr>t := (if cs = [] then t ?g1 else Some (Suc p + length cs - 1)),
                encoder_input_data := A\<rparr>"
       "length A = length (encoder_input_data ?g1)"
       "\<forall>i'. i' \<noteq> i \<longrightarrow> A ! i' = encoder_input_data ?g1 ! i'"
       "length (A ! i) = length (encoder_input_data ?g1 ! i)"
       "\<forall>t'. A ! i ! t' =
          (if Suc p \<le> t' \<and> t' < Suc p + length cs
           then (encoder_input_data ?g1 ! i ! t')[code (input_token_index ?g1) (cs ! (t' - Suc p)) := 1]
           else encoder_input_data ?g1 ! i ! t')"
    by blast
  have A: "g' = g\<lparr>t := (if cs = [] then Some p else Some (Suc p + length cs - 1)),
                encoder_input_data := A\<rparr>"
       "length A = length arr"
       "\<forall>i'. i' \<noteq> i \<longrightarrow> A ! i' = arr ! i'"
       "length (A ! i) = length (arr ! i)"
       "\<forall>t'. A ! i ! t' =
          (if Suc p \<le> t' \<and> t' < Suc p + length cs
           then (arr ! i ! t')[code (input_token_index g) (cs ! (t' - Suc p)) := 1]
           else arr ! i ! t')"
    using A0 by simp_all
  have 1: "g' = g\<lparr>t := (if c # cs = [] then t g else Some (p + length (c # cs) - 1)),
                encoder_input_data := A\<rparr>"
    using A(1) by auto
  have 2: "length A = length ?E" using A(2) s by simp
  have 3: "\<forall>i'. i' \<noteq> i \<longrightarrow> A ! i' = ?E ! i'" using A(3) s by simp
  have 4: "length (A ! i) = length (?E ! i)" using A(4) s by simp
  have 5: "A ! i ! t' =
          (if p \<le> t' \<and> t' < p + length (c # cs)
           then (?E ! i ! t')[code (input_token_index g) ((c # cs) ! (t' - p)) := 1]
           else ?E ! i ! t')" for t'
  proof (cases "t' = p")
    case True
    then show ?thesis using A(5) s getitem_code [OF k] by simp
  next
    case False
    then have "arr ! i ! t' = ?E ! i ! t'" using s by simp
    moreover have "(c # cs) ! (t' - p) = cs ! (t' - Suc p)" if "p < t'"
      using that by (simp add: nth_Cons')
    ultimately show ?thesis using A(5) False by (auto simp: less_Suc_eq_le)
  qed
  show ?case using 1 2 3 4 5 by (intro exI[of _ A]) blast
qed



lemma fill_decoder_effect:
  "fill_decoder i (enumerate p cs) g = Inr g' \<Longrightarrow>
   \<exists>B C. g' = g\<lparr>t := (if cs = [] then t g else Some (p + length cs - 1)),
                  decoder_input_data := B, decoder_target_data := C\<rparr> \<and>
       length B = length (decoder_input_data g) \<and>
       (\<forall>i'. i' \<noteq> i \<longrightarrow> B ! i' = decoder_input_data g ! i') \<and>
       length (B ! i) = length (decoder_input_data g ! i) \<and>
       (\<forall>t'. B ! i ! t' =
          (if p \<le> t' \<and> t' < p + length cs
           then (decoder_input_data g ! i ! t')[code (target_token_index g) (cs ! (t' - p)) := 1]
           else decoder_input_data g ! i ! t')) \<and>
       length C = length (decoder_target_data g) \<and>
       (\<forall>i'. i' \<noteq> i \<longrightarrow> C ! i' = decoder_target_data g ! i') \<and>
       length (C ! i) = length (decoder_target_data g ! i) \<and>
       (\<forall>r. C ! i ! r =
          (if p \<le> Suc r \<and> Suc r < p + length cs
           then (decoder_target_data g ! i ! r)[code (target_token_index g) (cs ! (Suc r - p)) := 1]
           else decoder_target_data g ! i ! r))"
proof (induction cs arbitrary: p g)
  case Nil
  then show ?case
    by (intro exI[of _ "decoder_input_data g"] exI[of _ "decoder_target_data g"]) auto
next
  case (Cons c cs)
  let ?D = "decoder_input_data g"
  let ?T = "decoder_target_data g"
  from Cons.prems obtain k arr where
    k: "getitem (target_token_index g) c = Inr k"
    and arr: "setitem3 ?D i p k 1 = Inr arr"
    by (auto split: sum.splits)
  note s = setitem3_Inr [OF arr]
  obtain arr' where
    arr': "arr' = (if p > 0 then ?T[i := (?T ! i)[p - 1 := (?T ! i ! (p - 1))[k := 1]]] else ?T)"
    and bnd: "p > 0 \<longrightarrow> i < length ?T \<and> p - 1 < length (?T ! i)"
    and rest: "fill_decoder i (enumerate (Suc p) cs)
         (g\<lparr>t := Some p, decoder_input_data := arr, decoder_target_data := arr'\<rparr>) = Inr g'"
  proof (cases "p > 0")
    case True
    with Cons.prems k arr obtain a where
      a: "setitem3 ?T i (p - 1) k 1 = Inr a"
      and r: "fill_decoder i (enumerate (Suc p) cs)
         (g\<lparr>t := Some p, decoder_input_data := arr, decoder_target_data := a\<rparr>) = Inr g'"
      by (auto split: sum.splits)
    from setitem3_Inr [OF a] True r that show ?thesis by simp
  next
    case False
    with Cons.prems k arr have
      "fill_decoder i (enumerate (Suc p) cs) (g\<lparr>t := Some p, decoder_input_data := arr\<rparr>) = Inr g'"
      by (auto split: sum.splits)
    with False that [of ?T] show ?thesis by simp
  qed
  let ?g1 = "g\<lparr>t := Some p, decoder_input_data := arr, decoder_target_data := arr'\<rparr>"
  from Cons.IH [OF rest] obtain B C where
    A0: "g' = ?g1\<lparr>t := (if cs = [] then t ?g1 else Some (Suc p + length cs - 1)),
                decoder_input_data := B, decoder_target_data := C\<rparr>"
       "length B = length (decoder_input_data ?g1)"
       "\<forall>i'. i' \<noteq> i \<longrightarrow> B ! i' = decoder_input_data ?g1 ! i'"
       "length (B ! i) = length (decoder_input_data ?g1 ! i)"
       "\<forall>t'. B ! i ! t' =
          (if Suc p \<le> t' \<and> t' < Suc p + length cs
           then (decoder_input_data ?g1 ! i ! t')[code (target_token_index ?g1) (cs ! (t' - Suc p)) := 1]
           else decoder_input_data ?g1 ! i ! t')"
       "length C = length (decoder_target_data ?g1)"
       "\<forall>i'. i' \<noteq> i \<longrightarrow> C ! i' = decoder_target_data ?g1 ! i'"
       "length (C ! i) = length (decoder_target_data ?g1 ! i)"
       "\<forall>r. C ! i ! r =
          (if Suc p \<le> Suc r \<and> Suc r < Suc p + length cs
           then (decoder_target_data ?g1 ! i ! r)[code (target_token_index ?g1) (cs ! (Suc r - Suc p)) := 1]
           else decoder_target_data ?g1 ! i ! r)"
    by blast
  have A: "g' = g\<lparr>t := (if cs = [] then Some p else Some (Suc p + length cs - 1)),
                decoder_input_data := B, decoder_target_data := C\<rparr>"
       "length B = length arr"
       "\<forall>i'. i' \<noteq> i \<longrightarrow> B ! i' = arr ! i'"
       "length (B ! i) = length (arr ! i)"
       "\<forall>t'. B ! i ! t' =
          (if Suc p \<le> t' \<and> t' < Suc p + length cs
           then (arr ! i ! t')[code (target_token_index g) (cs ! (t' - Suc p)) := 1]
           else arr ! i ! t')"
       "length C = length arr'"
       "\<forall>i'. i' \<noteq> i \<longrightarrow> C ! i' = arr' ! i'"
       "length (C ! i) = length (arr' ! i)"
       "\<forall>r. C ! i ! r =
          (if p \<le> r \<and> r < p + length cs
           then (arr' ! i ! r)[code (target_token_index g) (cs ! (r - p)) := 1]
           else arr' ! i ! r)"
    using A0 by simp_all
  have 1: "g' = g\<lparr>t := (if c # cs = [] then t g else Some (p + length (c # cs) - 1)),
                decoder_input_data := B, decoder_target_data := C\<rparr>"
    using A(1) by auto
  have 2: "length B = length ?D" using A(2) s by simp
  have 3: "\<forall>i'. i' \<noteq> i \<longrightarrow> B ! i' = ?D ! i'" using A(3) s by simp
  have 4: "length (B ! i) = length (?D ! i)" using A(4) s by simp
  have 5: "B ! i ! t' =
          (if p \<le> t' \<and> t' < p + length (c # cs)
           then (?D ! i ! t')[code (target_token_index g) ((c # cs) ! (t' - p)) := 1]
           else ?D ! i ! t')" for t'
  proof (cases "t' = p")
    case True
    then show ?thesis using A(5) s getitem_code [OF k] by simp
  next
    case False
    then have "arr ! i ! t' = ?D ! i ! t'" using s by simp
    moreover have "(c # cs) ! (t' - p) = cs ! (t' - Suc p)" if "p < t'"
      using that by (simp add: nth_Cons')
    ultimately show ?thesis using A(5) False by (auto simp: less_Suc_eq_le)
  qed
  have 6: "length C = length ?T" using A(6) arr' by simp
  have 7: "\<forall>i'. i' \<noteq> i \<longrightarrow> C ! i' = ?T ! i'" using A(7) arr' by simp
  have 8: "length (C ! i) = length (?T ! i)" using A(8) arr' bnd by simp
  have 9: "C ! i ! r =
          (if p \<le> Suc r \<and> Suc r < p + length (c # cs)
           then (?T ! i ! r)[code (target_token_index g) ((c # cs) ! (Suc r - p)) := 1]
           else ?T ! i ! r)" for r
  proof (cases "Suc r = p")
    case True
    then have "arr' ! i ! r = (?T ! i ! r)[k := 1]" using arr' bnd by auto
    then show ?thesis using A(9) True getitem_code [OF k] by simp
  next
    case False
    then have "arr' ! i ! r = ?T ! i ! r" using arr' bnd by auto
    moreover have "(c # cs) ! (Suc r - p) = cs ! (r - p)" if "p \<le> r"
      using that by (simp add: nth_Cons' Suc_diff_le)
    ultimately show ?thesis using A(9) False by (auto simp: less_Suc_eq_le)
  qed
  show ?case using 1 2 3 4 5 6 7 8 9 by (intro exI[of _ B] exI[of _ C]) blast
qed



lemma setslice3_Inr:
  assumes "setslice3 arr i start k v = Inr a"
  shows "i < length arr" "\<forall>row \<in> set (arr ! i). k < length row"
    "length a = length arr" "\<forall>i'. i' \<noteq> i \<longrightarrow> a ! i' = arr ! i'"
    "length (a ! i) = length (arr ! i)"
    "\<forall>t'<length (arr ! i). a ! i ! t' = (if start \<le> t' then (arr ! i ! t')[k := v] else arr ! i ! t')"
  using assms
  by (auto simp: setslice3_def nth_enumerate_eq split: if_splits)

lemma read_t_Inr: "read_t g = Inr tv \<Longrightarrow> t g = Some tv"
  by (auto simp: read_t_def split: option.splits)

lemma pad_encoder_effect:
  assumes "pad_encoder i g = Inr g'"
  shows "\<exists>tv A. t g = Some tv \<and> g' = g\<lparr>encoder_input_data := A\<rparr> \<and>
     length A = length (encoder_input_data g) \<and>
     (\<forall>i'. i' \<noteq> i \<longrightarrow> A ! i' = encoder_input_data g ! i') \<and>
     length (A ! i) = length (encoder_input_data g ! i) \<and>
     (\<forall>t'<length (encoder_input_data g ! i). A ! i ! t' =
        (if tv + 1 \<le> t' then (encoder_input_data g ! i ! t')[code (input_token_index g) SPACE := 1]
         else encoder_input_data g ! i ! t'))"
proof -
  from assms obtain tv k A where tv: "read_t g = Inr tv"
    and k: "getitem (input_token_index g) SPACE = Inr k"
    and A: "setslice3 (encoder_input_data g) i (tv + 1) k 1 = Inr A"
    and g': "g' = g\<lparr>encoder_input_data := A\<rparr>"
    by (auto simp: pad_encoder_def split: sum.splits)
  show ?thesis
    using read_t_Inr [OF tv] g' setslice3_Inr(3-6) [OF A] getitem_code [OF k]
    by (intro exI[of _ tv] exI[of _ A]) simp
qed

lemma pad_decoder_input_effect:
  assumes "pad_decoder_input i g = Inr g'"
  shows "\<exists>tv A. t g = Some tv \<and> g' = g\<lparr>decoder_input_data := A\<rparr> \<and>
     length A = length (decoder_input_data g) \<and>
     (\<forall>i'. i' \<noteq> i \<longrightarrow> A ! i' = decoder_input_data g ! i') \<and>
     length (A ! i) = length (decoder_input_data g ! i) \<and>
     (\<forall>t'<length (decoder_input_data g ! i). A ! i ! t' =
        (if tv + 1 \<le> t' then (decoder_input_data g ! i ! t')[code (target_token_index g) SPACE := 1]
         else decoder_input_data g ! i ! t'))"
proof -
  from assms obtain tv k A where tv: "read_t g = Inr tv"
    and k: "getitem (target_token_index g) SPACE = Inr k"
    and A: "setslice3 (decoder_input_data g) i (tv + 1) k 1 = Inr A"
    and g': "g' = g\<lparr>decoder_input_data := A\<rparr>"
    by (auto simp: pad_decoder_input_def split: sum.splits)
  show ?thesis
    using read_t_Inr [OF tv] g' setslice3_Inr(3-6) [OF A] getitem_code [OF k]
    by (intro exI[of _ tv] exI[of _ A]) simp
qed

lemma pad_decoder_target_effect:
  assumes "pad_decoder_target i g = Inr g'"
  shows "\<exists>tv A. t g = Some tv \<and> g' = g\<lparr>decoder_target_data := A\<rparr> \<and>
     length A = length (decoder_target_data g) \<and>
     (\<forall>i'. i' \<noteq> i \<longrightarrow> A ! i' = decoder_target_data g ! i') \<and>
     length (A ! i) = length (decoder_target_data g ! i) \<and>
     (\<forall>t'<length (decoder_target_data g ! i). A ! i ! t' =
        (if tv \<le> t' then (decoder_target_data g ! i ! t')[code (target_token_index g) SPACE := 1]
         else decoder_target_data g ! i ! t'))"
proof -
  from assms obtain tv k A where tv: "read_t g = Inr tv"
    and k: "getitem (target_token_index g) SPACE = Inr k"
    and A: "setslice3 (decoder_target_data g) i tv k 1 = Inr A"
    and g': "g' = g\<lparr>decoder_target_data := A\<rparr>"
    by (auto simp: pad_decoder_target_def split: sum.splits)
  show ?thesis
    using read_t_Inr [OF tv] g' setslice3_Inr(3-6) [OF A] getitem_code [OF k]
    by (intro exI[of _ tv] exI[of _ A]) simp
qed



lemma fill_sample_effect:
  assumes f: "fill_sample i input_text target_text g = Inr g'" and ne: "target_text \<noteq> []"
  shows "\<exists>tv A B C.
     g' = g\<lparr>t := tv, encoder_input_data := A, decoder_input_data := B,
            decoder_target_data := C\<rparr> \<and>
     length A = length (encoder_input_data g) \<and>
     length B = length (decoder_input_data g) \<and>
     length C = length (decoder_target_data g) \<and>
     (\<forall>i'. i' \<noteq> i \<longrightarrow> A ! i' = encoder_input_data g ! i' \<and>
        B ! i' = decoder_input_data g ! i' \<and> C ! i' = decoder_target_data g ! i') \<and>
     length (A ! i) = length (encoder_input_data g ! i) \<and>
     length (B ! i) = length (decoder_input_data g ! i) \<and>
     length (C ! i) = length (decoder_target_data g ! i) \<and>
     (input_text \<noteq> [] \<longrightarrow> (\<forall>t'<length (encoder_input_data g ! i). A ! i ! t' =
        (encoder_input_data g ! i ! t')
          [code (input_token_index g)
             (if t' < length input_text then input_text ! t' else SPACE) := 1])) \<and>
     (\<forall>t'<length (decoder_input_data g ! i). B ! i ! t' =
        (decoder_input_data g ! i ! t')
          [code (target_token_index g)
             (if t' < length target_text then target_text ! t' else SPACE) := 1]) \<and>
     (\<forall>r<length (decoder_target_data g ! i). C ! i ! r =
        (decoder_target_data g ! i ! r)
          [code (target_token_index g)
             (if Suc r < length target_text then target_text ! Suc r else SPACE) := 1])"
proof -
  let ?E = "encoder_input_data g" and ?D = "decoder_input_data g"
    and ?T = "decoder_target_data g"
  from f obtain g1 g2 g3 g4 where
    s1: "fill_encoder i (enumerate 0 input_text) g = Inr g1"
    and s2: "pad_encoder i g1 = Inr g2"
    and s3: "fill_decoder i (enumerate 0 target_text) g2 = Inr g3"
    and s4: "pad_decoder_input i g3 = Inr g4"
    and s5: "pad_decoder_target i g4 = Inr g'"
    by (auto simp: fill_sample_def split: sum.splits)
  \<comment> \<open>the encoder loop\<close>
  from fill_encoder_effect [OF s1] obtain A1 where
    a1: "g1 = g\<lparr>t := (if input_text = [] then t g else Some (0 + length input_text - 1)),
                 encoder_input_data := A1\<rparr>"
      "length A1 = length ?E" "\<forall>i'. i' \<noteq> i \<longrightarrow> A1 ! i' = ?E ! i'"
      "length (A1 ! i) = length (?E ! i)"
      "\<forall>t'. A1 ! i ! t' =
          (if 0 \<le> t' \<and> t' < 0 + length input_text
           then (?E ! i ! t')[code (input_token_index g) (input_text ! (t' - 0)) := 1]
           else ?E ! i ! t')"
    by blast
  \<comment> \<open>the encoder padding\<close>
  from pad_encoder_effect [OF s2] obtain tv1 A2 where
    a2raw: "t g1 = Some tv1" "g2 = g1\<lparr>encoder_input_data := A2\<rparr>"
      "length A2 = length (encoder_input_data g1)"
      "\<forall>i'. i' \<noteq> i \<longrightarrow> A2 ! i' = encoder_input_data g1 ! i'"
      "length (A2 ! i) = length (encoder_input_data g1 ! i)"
      "\<forall>t'<length (encoder_input_data g1 ! i). A2 ! i ! t' =
        (if tv1 + 1 \<le> t' then (encoder_input_data g1 ! i ! t')[code (input_token_index g1) SPACE := 1]
         else encoder_input_data g1 ! i ! t')"
    by blast
  have a2: "g2 = g\<lparr>t := Some tv1, encoder_input_data := A2\<rparr>"
      "length A2 = length ?E" "\<forall>i'. i' \<noteq> i \<longrightarrow> A2 ! i' = ?E ! i'"
      "length (A2 ! i) = length (?E ! i)"
      "\<forall>t'<length (?E ! i). A2 ! i ! t' =
        (if tv1 + 1 \<le> t' then (A1 ! i ! t')[code (input_token_index g) SPACE := 1]
         else A1 ! i ! t')"
      "input_text \<noteq> [] \<longrightarrow> tv1 = length input_text - 1"
    using a2raw a1(1-4) by (auto split: if_splits)
  have encA: "A2 ! i ! t' = (?E ! i ! t')
          [code (input_token_index g)
             (if t' < length input_text then input_text ! t' else SPACE) := 1]"
    if "input_text \<noteq> []" "t' < length (?E ! i)" for t'
  proof -
    from that a2(6) have tv1: "tv1 + 1 = length input_text"
      by (cases input_text) simp_all
    show ?thesis using a2(5) a1(5) that(2) tv1 by auto
  qed
  \<comment> \<open>the decoder loop\<close>
  from fill_decoder_effect [OF s3] obtain B3 C3 where
    a3raw: "g3 = g2\<lparr>t := (if target_text = [] then t g2 else Some (0 + length target_text - 1)),
                  decoder_input_data := B3, decoder_target_data := C3\<rparr>"
       "length B3 = length (decoder_input_data g2)"
       "\<forall>i'. i' \<noteq> i \<longrightarrow> B3 ! i' = decoder_input_data g2 ! i'"
       "length (B3 ! i) = length (decoder_input_data g2 ! i)"
       "\<forall>t'. B3 ! i ! t' =
          (if 0 \<le> t' \<and> t' < 0 + length target_text
           then (decoder_input_data g2 ! i ! t')[code (target_token_index g2) (target_text ! (t' - 0)) := 1]
           else decoder_input_data g2 ! i ! t')"
       "length C3 = length (decoder_target_data g2)"
       "\<forall>i'. i' \<noteq> i \<longrightarrow> C3 ! i' = decoder_target_data g2 ! i'"
       "length (C3 ! i) = length (decoder_target_data g2 ! i)"
       "\<forall>r. C3 ! i ! r =
          (if 0 \<le> Suc r \<and> Suc r < 0 + length target_text
           then (decoder_target_data g2 ! i ! r)[code (target_token_index g2) (target_text ! (Suc r - 0)) := 1]
           else decoder_target_data g2 ! i ! r)"
    by blast
  have a3: "g3 = g\<lparr>t := Some (length target_text - 1), encoder_input_data := A2,
                  decoder_input_data := B3, decoder_target_data := C3\<rparr>"
       "length B3 = length ?D" "\<forall>i'. i' \<noteq> i \<longrightarrow> B3 ! i' = ?D ! i'"
       "length (B3 ! i) = length (?D ! i)"
       "\<forall>t'. B3 ! i ! t' =
          (if t' < length target_text
           then (?D ! i ! t')[code (target_token_index g) (target_text ! t') := 1]
           else ?D ! i ! t')"
       "length C3 = length ?T" "\<forall>i'. i' \<noteq> i \<longrightarrow> C3 ! i' = ?T ! i'"
       "length (C3 ! i) = length (?T ! i)"
       "\<forall>r. C3 ! i ! r =
          (if Suc r < length target_text
           then (?T ! i ! r)[code (target_token_index g) (target_text ! Suc r) := 1]
           else ?T ! i ! r)"
    using a3raw ne a2(1) by simp_all
  \<comment> \<open>the two decoder paddings\<close>
  from pad_decoder_input_effect [OF s4] obtain tv3 B4 where
    a4raw: "t g3 = Some tv3" "g4 = g3\<lparr>decoder_input_data := B4\<rparr>"
      "length B4 = length (decoder_input_data g3)"
      "\<forall>i'. i' \<noteq> i \<longrightarrow> B4 ! i' = decoder_input_data g3 ! i'"
      "length (B4 ! i) = length (decoder_input_data g3 ! i)"
      "\<forall>t'<length (decoder_input_data g3 ! i). B4 ! i ! t' =
        (if tv3 + 1 \<le> t' then (decoder_input_data g3 ! i ! t')[code (target_token_index g3) SPACE := 1]
         else decoder_input_data g3 ! i ! t')"
    by blast
  have tv3: "tv3 + 1 = length target_text"
    using a4raw(1) a3(1) ne by (cases target_text) auto
  have a4: "g4 = g\<lparr>t := Some (length target_text - 1), encoder_input_data := A2,
                  decoder_input_data := B4, decoder_target_data := C3\<rparr>"
      "length B4 = length ?D" "\<forall>i'. i' \<noteq> i \<longrightarrow> B4 ! i' = ?D ! i'"
      "length (B4 ! i) = length (?D ! i)"
      "\<forall>t'<length (?D ! i). B4 ! i ! t' =
        (if length target_text \<le> t' then (B3 ! i ! t')[code (target_token_index g) SPACE := 1]
         else B3 ! i ! t')"
    using a4raw a3(1-4) tv3 by simp_all
  from pad_decoder_target_effect [OF s5] obtain tv4 C5 where
    a5raw: "t g4 = Some tv4" "g' = g4\<lparr>decoder_target_data := C5\<rparr>"
      "length C5 = length (decoder_target_data g4)"
      "\<forall>i'. i' \<noteq> i \<longrightarrow> C5 ! i' = decoder_target_data g4 ! i'"
      "length (C5 ! i) = length (decoder_target_data g4 ! i)"
      "\<forall>t'<length (decoder_target_data g4 ! i). C5 ! i ! t' =
        (if tv4 \<le> t' then (decoder_target_data g4 ! i ! t')[code (target_token_index g4) SPACE := 1]
         else decoder_target_data g4 ! i ! t')"
    by blast
  have tv4: "tv4 + 1 = length target_text"
    using a5raw(1) a4(1) ne by (cases target_text) auto
  have a5: "g' = g\<lparr>t := Some (length target_text - 1), encoder_input_data := A2,
                  decoder_input_data := B4, decoder_target_data := C5\<rparr>"
      "length C5 = length ?T" "\<forall>i'. i' \<noteq> i \<longrightarrow> C5 ! i' = ?T ! i'"
      "length (C5 ! i) = length (?T ! i)"
      "\<forall>r<length (?T ! i). C5 ! i ! r =
        (if tv4 \<le> r then (C3 ! i ! r)[code (target_token_index g) SPACE := 1]
         else C3 ! i ! r)"
    using a5raw a4(1) a3(6-8) by simp_all
  have decB: "B4 ! i ! t' = (?D ! i ! t')
          [code (target_token_index g)
             (if t' < length target_text then target_text ! t' else SPACE) := 1]"
    if "t' < length (?D ! i)" for t'
    using a4(5) a3(5) that by auto
  have decC: "C5 ! i ! r = (?T ! i ! r)
          [code (target_token_index g)
             (if Suc r < length target_text then target_text ! Suc r else SPACE) := 1]"
    if "r < length (?T ! i)" for r
    using a5(5) a3(9) that tv4 by auto
  show ?thesis
    using a5(1) a2(2-4) a4(2-4) a5(2-4) encA decB decC
    by (intro exI[of _ "Some (length target_text - 1)"] exI[of _ A2] exI[of _ B4] exI[of _ C5])
       simp
qed



lemma fill_sample_blocks:
  assumes f: "fill_sample i input_text target_text g = Inr g'" and ne: "target_text \<noteq> []"
  shows "\<exists>tv A B C.
     g' = g\<lparr>t := tv, encoder_input_data := A, decoder_input_data := B,
            decoder_target_data := C\<rparr> \<and>
     length A = length (encoder_input_data g) \<and>
     length B = length (decoder_input_data g) \<and>
     length C = length (decoder_target_data g) \<and>
     (\<forall>i'. i' \<noteq> i \<longrightarrow> A ! i' = encoder_input_data g ! i' \<and>
        B ! i' = decoder_input_data g ! i' \<and> C ! i' = decoder_target_data g ! i') \<and>
     (input_text \<noteq> [] \<longrightarrow>
        filled_from (input_token_index g) input_text (encoder_input_data g ! i) (A ! i)) \<and>
     filled_from (target_token_index g) target_text (decoder_input_data g ! i) (B ! i) \<and>
     filled_from (target_token_index g) (tl target_text) (decoder_target_data g ! i) (C ! i)"
proof -
  from fill_sample_effect [OF f ne] obtain tv A B C where
    e: "g' = g\<lparr>t := tv, encoder_input_data := A, decoder_input_data := B,
            decoder_target_data := C\<rparr>"
     "length A = length (encoder_input_data g)"
     "length B = length (decoder_input_data g)"
     "length C = length (decoder_target_data g)"
     "\<forall>i'. i' \<noteq> i \<longrightarrow> A ! i' = encoder_input_data g ! i' \<and>
        B ! i' = decoder_input_data g ! i' \<and> C ! i' = decoder_target_data g ! i'"
     "length (A ! i) = length (encoder_input_data g ! i)"
     "length (B ! i) = length (decoder_input_data g ! i)"
     "length (C ! i) = length (decoder_target_data g ! i)"
     "input_text \<noteq> [] \<longrightarrow> (\<forall>t'<length (encoder_input_data g ! i). A ! i ! t' =
        (encoder_input_data g ! i ! t')
          [code (input_token_index g)
             (if t' < length input_text then input_text ! t' else SPACE) := 1])"
     "\<forall>t'<length (decoder_input_data g ! i). B ! i ! t' =
        (decoder_input_data g ! i ! t')
          [code (target_token_index g)
             (if t' < length target_text then target_text ! t' else SPACE) := 1]"
     "\<forall>r<length (decoder_target_data g ! i). C ! i ! r =
        (decoder_target_data g ! i ! r)
          [code (target_token_index g)
             (if Suc r < length target_text then target_text ! Suc r else SPACE) := 1]"
    by blast
  have tl: "(if r < length (tl target_text) then tl target_text ! r else SPACE) =
            (if Suc r < length target_text then target_text ! Suc r else SPACE)" for r
    using ne by (cases target_text) auto
  have c: "filled_from (target_token_index g) (tl target_text) (decoder_target_data g ! i) (C ! i)"
    unfolding filled_from_def char_at_def tl using e(8,11) by simp
  show ?thesis
    using e(1-5) e(6,9) e(7,10) c
    by (intro exI[of _ tv] exI[of _ A] exI[of _ B] exI[of _ C]) (simp add: filled_from_def char_at_def)
qed

lemma fill_samples_effect:
  assumes "fill_samples (enumerate p samples) g = Inr g'"
    and "\<forall>s \<in> set samples. snd s \<noteq> []"
  shows "\<exists>tv A B C.
     g' = g\<lparr>t := tv, encoder_input_data := A, decoder_input_data := B,
            decoder_target_data := C\<rparr> \<and>
     length A = length (encoder_input_data g) \<and>
     length B = length (decoder_input_data g) \<and>
     length C = length (decoder_target_data g) \<and>
     (\<forall>i'. i' < p \<or> p + length samples \<le> i' \<longrightarrow> A ! i' = encoder_input_data g ! i' \<and>
        B ! i' = decoder_input_data g ! i' \<and> C ! i' = decoder_target_data g ! i') \<and>
     (\<forall>j<length samples.
        (fst (samples ! j) \<noteq> [] \<longrightarrow>
           filled_from (input_token_index g) (fst (samples ! j))
             (encoder_input_data g ! (p + j)) (A ! (p + j))) \<and>
        filled_from (target_token_index g) (snd (samples ! j))
          (decoder_input_data g ! (p + j)) (B ! (p + j)) \<and>
        filled_from (target_token_index g) (tl (snd (samples ! j)))
          (decoder_target_data g ! (p + j)) (C ! (p + j)))"
  using assms
proof (induction samples arbitrary: p g)
  case Nil
  then have "g' = g" by simp
  then show ?case
    by (intro exI[of _ "t g"] exI[of _ "encoder_input_data g"]
        exI[of _ "decoder_input_data g"] exI[of _ "decoder_target_data g"]) simp
next
  case (Cons s samples)
  obtain it tt where s: "s = (it, tt)" by (cases s)
  with Cons.prems have ne: "tt \<noteq> []" and ne': "\<forall>s \<in> set samples. snd s \<noteq> []" by auto
  from Cons.prems(1) s obtain g1 where
    f1: "fill_sample p it tt g = Inr g1"
    and rest: "fill_samples (enumerate (Suc p) samples) g1 = Inr g'"
    by (auto split: sum.splits)
  from fill_sample_blocks [OF f1 ne] obtain tv1 A1 B1 C1 where
    e1: "g1 = g\<lparr>t := tv1, encoder_input_data := A1, decoder_input_data := B1,
            decoder_target_data := C1\<rparr>"
     "length A1 = length (encoder_input_data g)"
     "length B1 = length (decoder_input_data g)"
     "length C1 = length (decoder_target_data g)"
     "\<forall>i'. i' \<noteq> p \<longrightarrow> A1 ! i' = encoder_input_data g ! i' \<and>
        B1 ! i' = decoder_input_data g ! i' \<and> C1 ! i' = decoder_target_data g ! i'"
     "it \<noteq> [] \<longrightarrow>
        filled_from (input_token_index g) it (encoder_input_data g ! p) (A1 ! p)"
     "filled_from (target_token_index g) tt (decoder_input_data g ! p) (B1 ! p)"
     "filled_from (target_token_index g) (tl tt) (decoder_target_data g ! p) (C1 ! p)"
    by blast
  from Cons.IH [OF rest ne'] obtain tv A B C where
    raw: "g' = g1\<lparr>t := tv, encoder_input_data := A, decoder_input_data := B,
            decoder_target_data := C\<rparr>"
     "length A = length (encoder_input_data g1)"
     "length B = length (decoder_input_data g1)"
     "length C = length (decoder_target_data g1)"
     "\<forall>i'. i' < Suc p \<or> Suc p + length samples \<le> i' \<longrightarrow>
        A ! i' = encoder_input_data g1 ! i' \<and>
        B ! i' = decoder_input_data g1 ! i' \<and> C ! i' = decoder_target_data g1 ! i'"
     "\<forall>j<length samples.
        (fst (samples ! j) \<noteq> [] \<longrightarrow>
           filled_from (input_token_index g1) (fst (samples ! j))
             (encoder_input_data g1 ! (Suc p + j)) (A ! (Suc p + j))) \<and>
        filled_from (target_token_index g1) (snd (samples ! j))
          (decoder_input_data g1 ! (Suc p + j)) (B ! (Suc p + j)) \<and>
        filled_from (target_token_index g1) (tl (snd (samples ! j)))
          (decoder_target_data g1 ! (Suc p + j)) (C ! (Suc p + j))"
    by blast
  have e: "g' = g\<lparr>t := tv, encoder_input_data := A, decoder_input_data := B,
            decoder_target_data := C\<rparr>"
     "length A = length (encoder_input_data g)"
     "length B = length (decoder_input_data g)"
     "length C = length (decoder_target_data g)"
     "\<forall>i'. i' < Suc p \<or> Suc p + length samples \<le> i' \<longrightarrow>
        A ! i' = A1 ! i' \<and> B ! i' = B1 ! i' \<and> C ! i' = C1 ! i'"
     "\<forall>j<length samples.
        (fst (samples ! j) \<noteq> [] \<longrightarrow>
           filled_from (input_token_index g) (fst (samples ! j))
             (A1 ! (Suc p + j)) (A ! (Suc p + j))) \<and>
        filled_from (target_token_index g) (snd (samples ! j))
          (B1 ! (Suc p + j)) (B ! (Suc p + j)) \<and>
        filled_from (target_token_index g) (tl (snd (samples ! j)))
          (C1 ! (Suc p + j)) (C ! (Suc p + j))"
    using raw e1(1-4) by simp_all
  have out: "A ! i' = encoder_input_data g ! i' \<and>
        B ! i' = decoder_input_data g ! i' \<and> C ! i' = decoder_target_data g ! i'"
    if "i' < p \<or> p + length (s # samples) \<le> i'" for i'
    using that e(5) e1(5) by auto
  have blk: "(fst ((s # samples) ! j) \<noteq> [] \<longrightarrow>
           filled_from (input_token_index g) (fst ((s # samples) ! j))
             (encoder_input_data g ! (p + j)) (A ! (p + j))) \<and>
        filled_from (target_token_index g) (snd ((s # samples) ! j))
          (decoder_input_data g ! (p + j)) (B ! (p + j)) \<and>
        filled_from (target_token_index g) (tl (snd ((s # samples) ! j)))
          (decoder_target_data g ! (p + j)) (C ! (p + j))"
    if "j < length (s # samples)" for j
  proof (cases j)
    case 0
    have "A ! p = A1 ! p" "B ! p = B1 ! p" "C ! p = C1 ! p" using e(5) by simp_all
    then show ?thesis using 0 s e1(6-8) by simp
  next
    case (Suc j')
    then have j': "j' < length samples" using that by simp
    have "A1 ! (Suc p + j') = encoder_input_data g ! (Suc p + j')"
      "B1 ! (Suc p + j') = decoder_input_data g ! (Suc p + j')"
      "C1 ! (Suc p + j') = decoder_target_data g ! (Suc p + j')"
      using e1(5) by simp_all
    moreover from e(6) j' have
      "(fst (samples ! j') \<noteq> [] \<longrightarrow>
           filled_from (input_token_index g) (fst (samples ! j'))
             (A1 ! (Suc p + j')) (A ! (Suc p + j'))) \<and>
        filled_from (target_token_index g) (snd (samples ! j'))
          (B1 ! (Suc p + j')) (B ! (Suc p + j')) \<and>
        filled_from (target_token_index g) (tl (snd (samples ! j')))
          (C1 ! (Suc p + j')) (C ! (Suc p + j'))"
      by blast
    ultimately show ?thesis using Suc by simp
  qed
  show ?case
    using e(1-4) out blk
    by (intro exI[of _ tv] exI[of _ A] exI[of _ B] exI[of _ C]) simp
qed


subsection \<open>When the fill loops run through\<close>


lemma shaped_zeros: "shaped a b c (np_zeros3 a b c)"
  by (simp add: shaped_def np_zeros3_def)

lemma shaped_rewrite:
  assumes "shaped a b c arr" "length A = length arr"
    "\<forall>i'. i' \<noteq> i \<longrightarrow> A ! i' = arr ! i'" "length (A ! i) = length (arr ! i)"
    "\<forall>t'<length (arr ! i). length (A ! i ! t') = length (arr ! i ! t')"
  shows "shaped a b c A"
  unfolding shaped_def
proof (intro conjI allI impI)
  show "length A = a" using assms by (simp add: shaped_def)
next
  fix j assume j: "j < a"
  show "length (A ! j) = b"
    using assms j by (cases "j = i") (auto simp: shaped_def)
next
  fix j t' assume j: "j < a" and t': "t' < b"
  show "length (A ! j ! t') = c"
  proof (cases "j = i")
    case True
    with assms(1) j t' have "t' < length (arr ! i)" "length (arr ! i ! t') = c"
      by (auto simp: shaped_def)
    with assms(5) True show ?thesis by simp
  next
    case False
    with assms(1,3) j t' show ?thesis by (auto simp: shaped_def)
  qed
qed

lemma setitem3_shaped:
  assumes "shaped a b c arr" "i < a" "t' < b" "k < c"
  shows "\<exists>arr'. setitem3 arr i t' k v = Inr arr' \<and> shaped a b c arr'"
proof -
  from assms have ok: "i < length arr" "t' < length (arr ! i)" "k < length (arr ! i ! t')"
    by (auto simp: shaped_def)
  let ?A = "arr[i := (arr ! i)[t' := (arr ! i ! t')[k := v]]]"
  have "shaped a b c ?A"
    by (rule shaped_rewrite [OF assms(1), of _ i]) (use ok in \<open>auto simp: nth_list_update\<close>)
  with ok show ?thesis by (simp add: setitem3_def)
qed

lemma setslice3_shaped:
  assumes "shaped a b c arr" "i < a" "k < c"
  shows "\<exists>arr'. setslice3 arr i start k v = Inr arr' \<and> shaped a b c arr'"
proof -
  from assms have i: "i < length arr" and b: "length (arr ! i) = b"
    and rows: "\<forall>t'<b. length (arr ! i ! t') = c"
    by (auto simp: shaped_def)
  have chk: "\<forall>row \<in> set (arr ! i). k < length row"
    using b rows assms(3) by (auto simp: in_set_conv_nth)
  let ?A = "arr[i := map (\<lambda>(t', row). if start \<le> t' then row[k := v] else row)
                           (enumerate 0 (arr ! i))]"
  have "shaped a b c ?A"
    by (rule shaped_rewrite [OF assms(1), of _ i])
       (use i in \<open>auto simp: nth_list_update nth_enumerate_eq\<close>)
  with i chk show ?thesis by (simp add: setslice3_def)
qed

lemma fill_encoder_succeeds:
  assumes "shaped a b c (encoder_input_data g)" "i < a" "p + length cs \<le> b"
    "\<forall>ch \<in> set cs. \<exists>k<c. getitem (input_token_index g) ch = Inr k"
  shows "\<exists>g'. fill_encoder i (enumerate p cs) g = Inr g' \<and> shaped a b c (encoder_input_data g')"
  using assms
proof (induction cs arbitrary: p g)
  case Nil
  then show ?case by simp
next
  case (Cons ch cs)
  from Cons.prems(4) obtain k where k: "k < c" "getitem (input_token_index g) ch = Inr k"
    by auto
  from Cons.prems(3) have p: "p < b" by simp
  from setitem3_shaped [OF Cons.prems(1,2) p k(1)] obtain arr where
    arr: "setitem3 (encoder_input_data g) i p k 1 = Inr arr" "shaped a b c arr"
    by blast
  let ?g1 = "g\<lparr>t := Some p, encoder_input_data := arr\<rparr>"
  have "\<exists>g'. fill_encoder i (enumerate (Suc p) cs) ?g1 = Inr g' \<and>
            shaped a b c (encoder_input_data g')"
    by (rule Cons.IH) (use Cons.prems arr in auto)
  with k arr show ?case by simp
qed

lemma fill_decoder_succeeds:
  assumes "shaped a b c (decoder_input_data g)" "shaped a b c (decoder_target_data g)"
    "i < a" "p + length cs \<le> b"
    "\<forall>ch \<in> set cs. \<exists>k<c. getitem (target_token_index g) ch = Inr k"
  shows "\<exists>g'. fill_decoder i (enumerate p cs) g = Inr g' \<and>
     shaped a b c (decoder_input_data g') \<and> shaped a b c (decoder_target_data g')"
  using assms
proof (induction cs arbitrary: p g)
  case Nil
  then show ?case by simp
next
  case (Cons ch cs)
  from Cons.prems(5) obtain k where k: "k < c" "getitem (target_token_index g) ch = Inr k"
    by auto
  from Cons.prems(4) have p: "p < b" by simp
  from setitem3_shaped [OF Cons.prems(1,3) p k(1)] obtain arr where
    arr: "setitem3 (decoder_input_data g) i p k 1 = Inr arr" "shaped a b c arr"
    by blast
  show ?case
  proof (cases "p > 0")
    case True
    with p have "p - 1 < b" by simp
    from setitem3_shaped [OF Cons.prems(2,3) this k(1)] obtain arr' where
      arr': "setitem3 (decoder_target_data g) i (p - 1) k 1 = Inr arr'" "shaped a b c arr'"
      by blast
    let ?g1 = "g\<lparr>t := Some p, decoder_input_data := arr, decoder_target_data := arr'\<rparr>"
    have "\<exists>g'. fill_decoder i (enumerate (Suc p) cs) ?g1 = Inr g' \<and>
       shaped a b c (decoder_input_data g') \<and> shaped a b c (decoder_target_data g')"
      by (rule Cons.IH) (use Cons.prems arr arr' in auto)
    with k arr arr' True show ?thesis by simp
  next
    case False
    let ?g1 = "g\<lparr>t := Some p, decoder_input_data := arr\<rparr>"
    have "\<exists>g'. fill_decoder i (enumerate (Suc p) cs) ?g1 = Inr g' \<and>
       shaped a b c (decoder_input_data g') \<and> shaped a b c (decoder_target_data g')"
      by (rule Cons.IH) (use Cons.prems arr in auto)
    with k arr False show ?thesis by simp
  qed
qed



lemma pad_encoder_succeeds:
  assumes "shaped a b c (encoder_input_data g)" "i < a" "t g = Some tv"
    "\<exists>k<c. getitem (input_token_index g) SPACE = Inr k"
  shows "\<exists>A. pad_encoder i g = Inr (g\<lparr>encoder_input_data := A\<rparr>) \<and> shaped a b c A"
proof -
  from assms(4) obtain k where k: "k < c" "getitem (input_token_index g) SPACE = Inr k"
    by auto
  from setslice3_shaped [OF assms(1,2) k(1)] obtain A where
    "setslice3 (encoder_input_data g) i (tv + 1) k 1 = Inr A" "shaped a b c A"
    by blast
  with k assms(3) show ?thesis
    by (intro exI[of _ A]) (simp add: pad_encoder_def read_t_def)
qed

lemma pad_decoder_input_succeeds:
  assumes "shaped a b c (decoder_input_data g)" "i < a" "t g = Some tv"
    "\<exists>k<c. getitem (target_token_index g) SPACE = Inr k"
  shows "\<exists>A. pad_decoder_input i g = Inr (g\<lparr>decoder_input_data := A\<rparr>) \<and> shaped a b c A"
proof -
  from assms(4) obtain k where k: "k < c" "getitem (target_token_index g) SPACE = Inr k"
    by auto
  from setslice3_shaped [OF assms(1,2) k(1)] obtain A where
    "setslice3 (decoder_input_data g) i (tv + 1) k 1 = Inr A" "shaped a b c A"
    by blast
  with k assms(3) show ?thesis
    by (intro exI[of _ A]) (simp add: pad_decoder_input_def read_t_def)
qed

lemma pad_decoder_target_succeeds:
  assumes "shaped a b c (decoder_target_data g)" "i < a" "t g = Some tv"
    "\<exists>k<c. getitem (target_token_index g) SPACE = Inr k"
  shows "\<exists>A. pad_decoder_target i g = Inr (g\<lparr>decoder_target_data := A\<rparr>) \<and> shaped a b c A"
proof -
  from assms(4) obtain k where k: "k < c" "getitem (target_token_index g) SPACE = Inr k"
    by auto
  from setslice3_shaped [OF assms(1,2) k(1)] obtain A where
    "setslice3 (decoder_target_data g) i tv k 1 = Inr A" "shaped a b c A"
    by blast
  with k assms(3) show ?thesis
    by (intro exI[of _ A]) (simp add: pad_decoder_target_def read_t_def)
qed

lemma fill_ready_cong:
  assumes "fill_ready g"
    "shaped (length (input_texts g)) (max_encoder_seq_length g) (num_encoder_tokens g) A"
    "shaped (length (input_texts g)) (max_decoder_seq_length g) (num_decoder_tokens g) B"
    "shaped (length (input_texts g)) (max_decoder_seq_length g) (num_decoder_tokens g) C"
  shows "fill_ready (g\<lparr>t := tv, encoder_input_data := A, decoder_input_data := B,
                      decoder_target_data := C\<rparr>)"
  using assms by (simp add: fill_ready_def)

lemma sample_ready_cong:
  "sample_ready (g\<lparr>t := tv, encoder_input_data := A, decoder_input_data := B,
                   decoder_target_data := C\<rparr>) s = sample_ready g s"
  by (simp add: sample_ready_def)

lemma fill_sample_succeeds:
  assumes r: "fill_ready g" and s: "sample_ready g (input_text, target_text)"
    and i: "i < length (input_texts g)"
  shows "\<exists>g'. fill_sample i input_text target_text g = Inr g' \<and> fill_ready g'"
proof -
  let ?N = "length (input_texts g)"
  let ?me = "max_encoder_seq_length g" and ?ne = "num_encoder_tokens g"
  let ?md = "max_decoder_seq_length g" and ?nd = "num_decoder_tokens g"
  from r have sh: "shaped ?N ?me ?ne (encoder_input_data g)"
    "shaped ?N ?md ?nd (decoder_input_data g)" "shaped ?N ?md ?nd (decoder_target_data g)"
    and sp: "\<exists>k<?ne. getitem (input_token_index g) SPACE = Inr k"
      "\<exists>k<?nd. getitem (target_token_index g) SPACE = Inr k"
    by (simp_all add: fill_ready_def)
  from s have it: "input_text \<noteq> []" "0 + length input_text \<le> ?me"
    "\<forall>ch \<in> set input_text. \<exists>k<?ne. getitem (input_token_index g) ch = Inr k"
    and tt: "target_text \<noteq> []" "0 + length target_text \<le> ?md"
    "\<forall>ch \<in> set target_text. \<exists>k<?nd. getitem (target_token_index g) ch = Inr k"
    by (simp_all add: sample_ready_def)
  \<comment> \<open>encoder loop\<close>
  from fill_encoder_succeeds [OF sh(1) i it(2,3)] obtain g1 where
    s1: "fill_encoder i (enumerate 0 input_text) g = Inr g1"
    and sh1: "shaped ?N ?me ?ne (encoder_input_data g1)" by blast
  from fill_encoder_effect [OF s1] it(1) obtain A1 where
    g1: "g1 = g\<lparr>t := Some (0 + length input_text - 1), encoder_input_data := A1\<rparr>"
    by auto
  have sh1': "shaped ?N ?me ?ne A1" using sh1 g1 by simp
  \<comment> \<open>encoder padding\<close>
  have "\<exists>A. pad_encoder i g1 = Inr (g1\<lparr>encoder_input_data := A\<rparr>) \<and> shaped ?N ?me ?ne A"
    by (rule pad_encoder_succeeds [where tv = "0 + length input_text - 1"])
       (use sh1 i sp g1 in simp_all)
  then obtain A2 where s2: "pad_encoder i g1 = Inr (g1\<lparr>encoder_input_data := A2\<rparr>)"
    and sh2: "shaped ?N ?me ?ne A2" by blast
  let ?g2 = "g1\<lparr>encoder_input_data := A2\<rparr>"
  have g2: "?g2 = g\<lparr>t := Some (0 + length input_text - 1), encoder_input_data := A2\<rparr>"
    using g1 by simp
  \<comment> \<open>decoder loop\<close>
  have "\<exists>g'. fill_decoder i (enumerate 0 target_text) ?g2 = Inr g' \<and>
     shaped ?N ?md ?nd (decoder_input_data g') \<and> shaped ?N ?md ?nd (decoder_target_data g')"
    by (rule fill_decoder_succeeds) (use sh i tt g2 in simp_all)
  then obtain g3 where s3: "fill_decoder i (enumerate 0 target_text) ?g2 = Inr g3"
    and sh3: "shaped ?N ?md ?nd (decoder_input_data g3)"
      "shaped ?N ?md ?nd (decoder_target_data g3)" by blast
  from fill_decoder_effect [OF s3] tt(1) obtain B3 C3 where
    g3raw: "g3 = ?g2\<lparr>t := Some (0 + length target_text - 1),
                      decoder_input_data := B3, decoder_target_data := C3\<rparr>"
    by auto
  have g3: "g3 = g\<lparr>t := Some (length target_text - 1), encoder_input_data := A2,
                    decoder_input_data := B3, decoder_target_data := C3\<rparr>"
    using g3raw g2 by simp
  have sh3': "shaped ?N ?md ?nd B3" "shaped ?N ?md ?nd C3" using sh3 g3 by simp_all
  \<comment> \<open>decoder paddings\<close>
  have "\<exists>A. pad_decoder_input i g3 = Inr (g3\<lparr>decoder_input_data := A\<rparr>) \<and> shaped ?N ?md ?nd A"
    by (rule pad_decoder_input_succeeds [where tv = "length target_text - 1"])
       (use sh3 i sp g3 in simp_all)
  then obtain B4 where s4: "pad_decoder_input i g3 = Inr (g3\<lparr>decoder_input_data := B4\<rparr>)"
    and sh4: "shaped ?N ?md ?nd B4" by blast
  let ?g4 = "g3\<lparr>decoder_input_data := B4\<rparr>"
  have g4: "?g4 = g\<lparr>t := Some (length target_text - 1), encoder_input_data := A2,
                    decoder_input_data := B4, decoder_target_data := C3\<rparr>"
    using g3 by simp
  have "\<exists>A. pad_decoder_target i ?g4 = Inr (?g4\<lparr>decoder_target_data := A\<rparr>) \<and>
            shaped ?N ?md ?nd A"
    by (rule pad_decoder_target_succeeds [where tv = "length target_text - 1"])
       (use sh3' i sp g4 in simp_all)
  then obtain C5 where s5: "pad_decoder_target i ?g4 = Inr (?g4\<lparr>decoder_target_data := C5\<rparr>)"
    and sh5: "shaped ?N ?md ?nd C5" by blast
  have g5: "?g4\<lparr>decoder_target_data := C5\<rparr> =
       g\<lparr>t := Some (length target_text - 1), encoder_input_data := A2,
         decoder_input_data := B4, decoder_target_data := C5\<rparr>"
    using g4 by simp
  have "fill_sample i input_text target_text g = Inr (?g4\<lparr>decoder_target_data := C5\<rparr>)"
    using s1 s2 s3 s4 s5 by (simp add: fill_sample_def)
  moreover have "fill_ready (?g4\<lparr>decoder_target_data := C5\<rparr>)"
    unfolding g5 by (rule fill_ready_cong [OF r sh2 sh4 sh5])
  ultimately show ?thesis by blast
qed

lemma fill_samples_succeeds:
  assumes "fill_ready g" "\<forall>s \<in> set samples. sample_ready g s"
    "p + length samples \<le> length (input_texts g)"
  shows "\<exists>g'. fill_samples (enumerate p samples) g = Inr g'"
  using assms
proof (induction samples arbitrary: p g)
  case Nil
  then show ?case by simp
next
  case (Cons s samples)
  obtain it tt where s: "s = (it, tt)" by (cases s)
  from Cons.prems s have sr: "sample_ready g (it, tt)" and p: "p < length (input_texts g)"
    by simp_all
  from fill_sample_succeeds [OF Cons.prems(1) sr p] obtain g1 where
    f1: "fill_sample p it tt g = Inr g1" and r1: "fill_ready g1" by blast
  from sr have "tt \<noteq> []" by (simp add: sample_ready_def)
  from fill_sample_blocks [OF f1 this] obtain tv A B C where
    g1: "g1 = g\<lparr>t := tv, encoder_input_data := A, decoder_input_data := B,
            decoder_target_data := C\<rparr>" by blast
  have "\<exists>g'. fill_samples (enumerate (Suc p) samples) g1 = Inr g'"
  proof (rule Cons.IH [OF r1])
    show "\<forall>s \<in> set samples. sample_ready g1 s"
      using Cons.prems(2) unfolding g1 sample_ready_cong by simp
    show "Suc p + length samples \<le> length (input_texts g1)"
      using Cons.prems(3) g1 by simp
  qed
  with f1 s show ?case by simp
qed


subsection \<open>The state the loading statements leave, and the arrays filled from it\<close>


lemma finite_chars: "finite (\<Union> (set ` set (xs :: py_str list)))"
  by simp

lemma load_data_Inr:
  assumes "load_data content = Inr g"
  shows "loaded_lines content \<noteq> []"
    "\<forall>l \<in> set (loaded_lines content). length (split_on TAB l) = 3"
    "input_texts g = map (\<lambda>l. split_on TAB l ! 0) (loaded_lines content)"
    "target_texts g = map (\<lambda>l. [TAB] @ split_on TAB l ! 1 @ [NEWLINE]) (loaded_lines content)"
    "input_characters g = sorted_list_of_set (\<Union> (set ` set (input_texts g)))"
    "target_characters g = sorted_list_of_set (\<Union> (set ` set (target_texts g)))"
    "num_encoder_tokens g = length (input_characters g)"
    "num_decoder_tokens g = length (target_characters g)"
    "\<forall>s \<in> set (input_texts g). length s \<le> max_encoder_seq_length g"
    "\<forall>s \<in> set (target_texts g). length s \<le> max_decoder_seq_length g"
    "input_token_index g = token_index (input_characters g)"
    "target_token_index g = token_index (target_characters g)"
    "encoder_input_data g = np_zeros3 (length (input_texts g)) (max_encoder_seq_length g)
       (num_encoder_tokens g)"
    "decoder_input_data g = np_zeros3 (length (input_texts g)) (max_decoder_seq_length g)
       (num_decoder_tokens g)"
    "decoder_target_data g = np_zeros3 (length (input_texts g)) (max_decoder_seq_length g)
       (num_decoder_tokens g)"
    "t g = None"
proof -
  from assms obtain its tts ic tc max_enc max_dec where
    r: "read_lines (loaded_lines content) ([], [], {}, {}) = Inr (its, tts, ic, tc)"
    and me: "py_max (map length its) = Inr max_enc"
    and md: "py_max (map length tts) = Inr max_dec"
    and g: "g = \<lparr>input_texts = its, target_texts = tts,
                 input_characters = sorted_list_of_set ic,
                 target_characters = sorted_list_of_set tc,
                 num_encoder_tokens = length (sorted_list_of_set ic),
                 num_decoder_tokens = length (sorted_list_of_set tc),
                 max_encoder_seq_length = max_enc,
                 max_decoder_seq_length = max_dec,
                 input_token_index = token_index (sorted_list_of_set ic),
                 target_token_index = token_index (sorted_list_of_set tc),
                 encoder_input_data = np_zeros3 (length its) max_enc (length (sorted_list_of_set ic)),
                 decoder_input_data = np_zeros3 (length its) max_dec (length (sorted_list_of_set tc)),
                 decoder_target_data = np_zeros3 (length its) max_dec (length (sorted_list_of_set tc)),
                 t = None\<rparr>"
    by (auto simp: load_data_def Let_def split: sum.splits prod.splits)
  from read_lines_Inr [OF r] have rl:
    "\<forall>l \<in> set (loaded_lines content). length (split_on TAB l) = 3"
    "its = map (\<lambda>l. split_on TAB l ! 0) (loaded_lines content)"
    "tts = map (\<lambda>l. [TAB] @ split_on TAB l ! 1 @ [NEWLINE]) (loaded_lines content)"
    "ic = \<Union> (set ` set its)" "tc = \<Union> (set ` set tts)"
    by simp_all
  from py_max_Inr [OF me] have m1: "its \<noteq> []" "\<forall>s \<in> set its. length s \<le> max_enc" by simp_all
  from py_max_Inr [OF md] have m2: "\<forall>s \<in> set tts. length s \<le> max_dec" by simp
  show "loaded_lines content \<noteq> []" using m1(1) rl(2) by simp
  show "\<forall>l \<in> set (loaded_lines content). length (split_on TAB l) = 3" by (rule rl(1))
  show "input_texts g = map (\<lambda>l. split_on TAB l ! 0) (loaded_lines content)"
    using g rl(2) by simp
  show "target_texts g = map (\<lambda>l. [TAB] @ split_on TAB l ! 1 @ [NEWLINE]) (loaded_lines content)"
    using g rl(3) by simp
  show "input_characters g = sorted_list_of_set (\<Union> (set ` set (input_texts g)))"
    using g rl(4) by simp
  show "target_characters g = sorted_list_of_set (\<Union> (set ` set (target_texts g)))"
    using g rl(5) by simp
  show "num_encoder_tokens g = length (input_characters g)" using g by simp
  show "num_decoder_tokens g = length (target_characters g)" using g by simp
  show "\<forall>s \<in> set (input_texts g). length s \<le> max_encoder_seq_length g" using g m1(2) by simp
  show "\<forall>s \<in> set (target_texts g). length s \<le> max_decoder_seq_length g" using g m2 by simp
  show "input_token_index g = token_index (input_characters g)" using g by simp
  show "target_token_index g = token_index (target_characters g)" using g by simp
  show "encoder_input_data g = np_zeros3 (length (input_texts g)) (max_encoder_seq_length g)
       (num_encoder_tokens g)" using g by simp
  show "decoder_input_data g = np_zeros3 (length (input_texts g)) (max_decoder_seq_length g)
       (num_decoder_tokens g)" using g by simp
  show "decoder_target_data g = np_zeros3 (length (input_texts g)) (max_decoder_seq_length g)
       (num_decoder_tokens g)" using g by simp
  show "t g = None" using g by simp
qed

lemma load_data_succeeds:
  assumes "loaded_lines content \<noteq> []"
    "\<forall>l \<in> set (loaded_lines content). length (split_on TAB l) = 3"
  shows "\<exists>g. load_data content = Inr g"
proof -
  from read_lines_succeeds [OF assms(2)] obtain r' where
    "read_lines (loaded_lines content) ([], [], {}, {}) = Inr r'" by blast
  moreover obtain its tts ic tc where r': "r' = (its, tts, ic, tc)" by (rule prod_cases4)
  ultimately have r: "read_lines (loaded_lines content) ([], [], {}, {}) = Inr (its, tts, ic, tc)"
    by simp
  from read_lines_Inr [OF r] assms(1) have "its \<noteq> []" "tts \<noteq> []" by simp_all
  then obtain me md where "py_max (map length its) = Inr me" "py_max (map length tts) = Inr md"
    using py_max_nonempty [of "map length its"] py_max_nonempty [of "map length tts"] by auto
  with r show ?thesis by (simp add: load_data_def Let_def)
qed

lemma load_data_lengths:
  assumes "load_data content = Inr g"
  shows "length (target_texts g) = length (input_texts g)"
    "\<forall>s \<in> set (target_texts g). s \<noteq> []"
  using load_data_Inr(3,4) [OF assms] by auto

lemma input_vocab_lookup:
  assumes "load_data content = Inr g" "ch \<in> set (input_characters g)"
  shows "\<exists>k<num_encoder_tokens g. getitem (input_token_index g) ch = Inr k \<and>
            input_characters g ! k = ch"
proof -
  let ?cs = "input_characters g"
  have d: "distinct ?cs" using load_data_Inr(5) [OF assms(1)] by simp
  from assms(2) obtain k where k: "k < length ?cs" "?cs ! k = ch"
    by (auto simp: in_set_conv_nth)
  from token_index_nth [OF d k(1)] k load_data_Inr(7,11) [OF assms(1)]
  show ?thesis by auto
qed

lemma target_vocab_lookup:
  assumes "load_data content = Inr g" "ch \<in> set (target_characters g)"
  shows "\<exists>k<num_decoder_tokens g. getitem (target_token_index g) ch = Inr k \<and>
            target_characters g ! k = ch"
proof -
  let ?cs = "target_characters g"
  have d: "distinct ?cs" using load_data_Inr(6) [OF assms(1)] by simp
  from assms(2) obtain k where k: "k < length ?cs" "?cs ! k = ch"
    by (auto simp: in_set_conv_nth)
  from token_index_nth [OF d k(1)] k load_data_Inr(8,12) [OF assms(1)]
  show ?thesis by auto
qed

lemma input_text_chars:
  assumes "load_data content = Inr g" "s \<in> set (input_texts g)" "ch \<in> set s"
  shows "ch \<in> set (input_characters g)"
  using load_data_Inr(5) [OF assms(1)] assms(2,3) by auto

lemma target_text_chars:
  assumes "load_data content = Inr g" "s \<in> set (target_texts g)" "ch \<in> set s"
  shows "ch \<in> set (target_characters g)"
  using load_data_Inr(6) [OF assms(1)] assms(2,3) by auto

lemma load_data_fill_ready:
  assumes l: "load_data content = Inr g"
    and sp: "SPACE \<in> set (input_characters g)" "SPACE \<in> set (target_characters g)"
  shows "fill_ready g"
  unfolding fill_ready_def
  using load_data_Inr(13-15) [OF l] input_vocab_lookup [OF l sp(1)]
    target_vocab_lookup [OF l sp(2)]
  by (auto simp: shaped_zeros)

lemma load_data_sample_ready:
  assumes l: "load_data content = Inr g"
    and ne: "\<forall>s \<in> set (input_texts g). s \<noteq> []"
    and s: "s \<in> set (zip (input_texts g) (target_texts g))"
  shows "sample_ready g s"
proof -
  obtain a b where ab: "s = (a, b)" by (cases s)
  with s have a: "a \<in> set (input_texts g)" and b: "b \<in> set (target_texts g)"
    by (auto dest: set_zip_leftD set_zip_rightD)
  have "\<exists>k<num_encoder_tokens g. getitem (input_token_index g) ch = Inr k" if "ch \<in> set a" for ch
    using input_vocab_lookup [OF l input_text_chars [OF l a that]] by blast
  moreover
  have "\<exists>k<num_decoder_tokens g. getitem (target_token_index g) ch = Inr k" if "ch \<in> set b" for ch
    using target_vocab_lookup [OF l target_text_chars [OF l b that]] by blast
  ultimately show ?thesis
    unfolding sample_ready_def ab
    using ne a b load_data_Inr(9,10) [OF l] load_data_lengths(2) [OF l] by auto
qed

lemma fill_arrays_succeeds:
  assumes l: "load_data content = Inr g"
    and ne: "\<forall>s \<in> set (input_texts g). s \<noteq> []"
    and sp: "SPACE \<in> set (input_characters g)" "SPACE \<in> set (target_characters g)"
  shows "\<exists>g'. fill_arrays g = Inr g'"
  unfolding fill_arrays_def
proof (rule fill_samples_succeeds)
  show "fill_ready g" by (rule load_data_fill_ready [OF l sp])
  show "\<forall>s \<in> set (zip (input_texts g) (target_texts g)). sample_ready g s"
    using load_data_sample_ready [OF l ne] by blast
  show "0 + length (zip (input_texts g) (target_texts g)) \<le> length (input_texts g)"
    by simp
qed

lemma filled_zero_row:
  assumes "filled_from index s (replicate m (replicate n 0)) blk" "t' < m"
  shows "blk ! t' = one_hot n (code index (char_at s t'))"
  using assms by (simp add: filled_from_def one_hot_def)

lemma fill_arrays_content:
  assumes l: "load_data content = Inr g" and f: "fill_arrays g = Inr g'"
  shows "\<exists>tv A B C.
     g' = g\<lparr>t := tv, encoder_input_data := A, decoder_input_data := B,
            decoder_target_data := C\<rparr> \<and>
     length A = length (input_texts g) \<and>
     length B = length (input_texts g) \<and>
     length C = length (input_texts g) \<and>
     (\<forall>i<length (input_texts g).
        length (B ! i) = max_decoder_seq_length g \<and>
        length (C ! i) = max_decoder_seq_length g \<and>
        (input_texts g ! i \<noteq> [] \<longrightarrow>
           length (A ! i) = max_encoder_seq_length g \<and>
           (\<forall>t'<max_encoder_seq_length g.
              A ! i ! t' = one_hot (num_encoder_tokens g)
                (code (input_token_index g) (char_at (input_texts g ! i) t')))) \<and>
        (\<forall>t'<max_decoder_seq_length g.
           B ! i ! t' = one_hot (num_decoder_tokens g)
             (code (target_token_index g) (char_at (target_texts g ! i) t'))) \<and>
        (\<forall>t'<max_decoder_seq_length g.
           C ! i ! t' = one_hot (num_decoder_tokens g)
             (code (target_token_index g) (char_at (tl (target_texts g ! i)) t'))))"
proof -
  let ?N = "length (input_texts g)"
  let ?samples = "zip (input_texts g) (target_texts g)"
  note ld = load_data_Inr [OF l]
  note ln = load_data_lengths [OF l]
  have len: "length ?samples = ?N" using ln(1) by simp
  have ne: "\<forall>s \<in> set ?samples. snd s \<noteq> []"
    using ln(2) by (auto dest: set_zip_rightD)
  from f have f': "fill_samples (enumerate 0 ?samples) g = Inr g'"
    by (simp add: fill_arrays_def)
  from fill_samples_effect [OF f' ne] obtain tv A B C where
    e: "g' = g\<lparr>t := tv, encoder_input_data := A, decoder_input_data := B,
            decoder_target_data := C\<rparr>"
     "length A = length (encoder_input_data g)"
     "length B = length (decoder_input_data g)"
     "length C = length (decoder_target_data g)"
     "\<forall>j<length ?samples.
        (fst (?samples ! j) \<noteq> [] \<longrightarrow>
           filled_from (input_token_index g) (fst (?samples ! j))
             (encoder_input_data g ! (0 + j)) (A ! (0 + j))) \<and>
        filled_from (target_token_index g) (snd (?samples ! j))
          (decoder_input_data g ! (0 + j)) (B ! (0 + j)) \<and>
        filled_from (target_token_index g) (tl (snd (?samples ! j)))
          (decoder_target_data g ! (0 + j)) (C ! (0 + j))"
    by blast
  have lens: "length A = ?N" "length B = ?N" "length C = ?N"
    using e(2-4) ld(13-15) by (simp_all add: np_zeros3_def)
  have blk: "length (B ! i) = max_decoder_seq_length g \<and>
        length (C ! i) = max_decoder_seq_length g \<and>
        (input_texts g ! i \<noteq> [] \<longrightarrow>
           length (A ! i) = max_encoder_seq_length g \<and>
           (\<forall>t'<max_encoder_seq_length g.
              A ! i ! t' = one_hot (num_encoder_tokens g)
                (code (input_token_index g) (char_at (input_texts g ! i) t')))) \<and>
        (\<forall>t'<max_decoder_seq_length g.
           B ! i ! t' = one_hot (num_decoder_tokens g)
             (code (target_token_index g) (char_at (target_texts g ! i) t'))) \<and>
        (\<forall>t'<max_decoder_seq_length g.
           C ! i ! t' = one_hot (num_decoder_tokens g)
             (code (target_token_index g) (char_at (tl (target_texts g ! i)) t')))"
    if i: "i < ?N" for i
  proof -
    have z: "encoder_input_data g ! i =
               replicate (max_encoder_seq_length g) (replicate (num_encoder_tokens g) 0)"
      "decoder_input_data g ! i =
               replicate (max_decoder_seq_length g) (replicate (num_decoder_tokens g) 0)"
      "decoder_target_data g ! i =
               replicate (max_decoder_seq_length g) (replicate (num_decoder_tokens g) 0)"
      using ld(13-15) i by (simp_all add: np_zeros3_def)
    have s: "?samples ! i = (input_texts g ! i, target_texts g ! i)"
      using i ln(1) by simp
    from e(5) i len have
      a: "input_texts g ! i \<noteq> [] \<longrightarrow>
           filled_from (input_token_index g) (input_texts g ! i)
             (replicate (max_encoder_seq_length g) (replicate (num_encoder_tokens g) 0)) (A ! i)"
      and b: "filled_from (target_token_index g) (target_texts g ! i)
          (replicate (max_decoder_seq_length g) (replicate (num_decoder_tokens g) 0)) (B ! i)"
      and c: "filled_from (target_token_index g) (tl (target_texts g ! i))
          (replicate (max_decoder_seq_length g) (replicate (num_decoder_tokens g) 0)) (C ! i)"
      using s z by auto
    have lb: "length (B ! i) = max_decoder_seq_length g"
      using b by (simp add: filled_from_def)
    have lc: "length (C ! i) = max_decoder_seq_length g"
      using c by (simp add: filled_from_def)
    have la: "length (A ! i) = max_encoder_seq_length g" if "input_texts g ! i \<noteq> []"
      using a that by (simp add: filled_from_def)
    have ra: "A ! i ! t' = one_hot (num_encoder_tokens g)
                (code (input_token_index g) (char_at (input_texts g ! i) t'))"
      if "input_texts g ! i \<noteq> []" "t' < max_encoder_seq_length g" for t'
      using a that by (intro filled_zero_row) simp_all
    have rb: "B ! i ! t' = one_hot (num_decoder_tokens g)
             (code (target_token_index g) (char_at (target_texts g ! i) t'))"
      if "t' < max_decoder_seq_length g" for t'
      using b that by (intro filled_zero_row) simp_all
    have rc: "C ! i ! t' = one_hot (num_decoder_tokens g)
             (code (target_token_index g) (char_at (tl (target_texts g ! i)) t'))"
      if "t' < max_decoder_seq_length g" for t'
      using c that by (intro filled_zero_row) simp_all
    show ?thesis
      using la lb lc ra rb rc by simp
  qed
  show ?thesis
    using e(1) lens blk
    by (intro exI[of _ tv] exI[of _ A] exI[of _ B] exI[of _ C]) simp
qed


lemma char_at_vocab_input:
  assumes l: "load_data content = Inr g" and i: "i < length (input_texts g)"
    and sp: "t' < length (input_texts g ! i) \<or> SPACE \<in> set (input_characters g)"
  shows "\<exists>k<num_encoder_tokens g.
           getitem (input_token_index g) (char_at (input_texts g ! i) t') = Inr k"
proof -
  have "char_at (input_texts g ! i) t' \<in> set (input_characters g)"
  proof (cases "t' < length (input_texts g ! i)")
    case True
    then have "input_texts g ! i ! t' \<in> set (input_texts g ! i)" by simp
    from input_text_chars [OF l _ this] i True show ?thesis by (simp add: char_at_def)
  next
    case False
    with sp show ?thesis by (simp add: char_at_def)
  qed
  from input_vocab_lookup [OF l this] show ?thesis by blast
qed

lemma char_at_vocab_target:
  assumes l: "load_data content = Inr g" and i: "i < length (target_texts g)"
    and s: "set s \<subseteq> set (target_texts g ! i)"
    and sp: "t' < length s \<or> SPACE \<in> set (target_characters g)"
  shows "\<exists>k<num_decoder_tokens g.
           getitem (target_token_index g) (char_at s t') = Inr k"
proof -
  have "char_at s t' \<in> set (target_characters g)"
  proof (cases "t' < length s")
    case True
    then have "s ! t' \<in> set (target_texts g ! i)" using s by auto
    from target_text_chars [OF l _ this] i True show ?thesis by (simp add: char_at_def)
  next
    case False
    with sp show ?thesis by (simp add: char_at_def)
  qed
  from target_vocab_lookup [OF l this] show ?thesis by blast
qed

lemma one_hot_entries:
  "k < n \<Longrightarrow> length (one_hot n k) = n \<and> (\<forall>j<n. one_hot n k ! j = (if j = k then 1 else 0))"
  by (simp add: one_hot_def nth_list_update)

text \<open>The rows of the three arrays after the fill loops, row by row.\<close>

lemma fill_arrays_rows:
  assumes l: "load_data content = Inr g" and f: "fill_arrays g = Inr g'"
    and i: "i < length (input_texts g)"
  shows
    "input_texts g ! i \<noteq> [] \<Longrightarrow> t' < max_encoder_seq_length g \<Longrightarrow>
       t' < length (input_texts g ! i) \<or> SPACE \<in> set (input_characters g) \<Longrightarrow>
       \<exists>k<num_encoder_tokens g.
         getitem (input_token_index g) (char_at (input_texts g ! i) t') = Inr k \<and>
         encoder_input_data g' ! i ! t' = one_hot (num_encoder_tokens g) k"
    "t' < max_decoder_seq_length g \<Longrightarrow>
       t' < length (target_texts g ! i) \<or> SPACE \<in> set (target_characters g) \<Longrightarrow>
       \<exists>k<num_decoder_tokens g.
         getitem (target_token_index g) (char_at (target_texts g ! i) t') = Inr k \<and>
         decoder_input_data g' ! i ! t' = one_hot (num_decoder_tokens g) k"
    "t' < max_decoder_seq_length g \<Longrightarrow>
       t' < length (tl (target_texts g ! i)) \<or> SPACE \<in> set (target_characters g) \<Longrightarrow>
       \<exists>k<num_decoder_tokens g.
         getitem (target_token_index g) (char_at (tl (target_texts g ! i)) t') = Inr k \<and>
         decoder_target_data g' ! i ! t' = one_hot (num_decoder_tokens g) k"
proof -
  from fill_arrays_content [OF l f] obtain tv A B C where
    g': "g' = g\<lparr>t := tv, encoder_input_data := A, decoder_input_data := B,
            decoder_target_data := C\<rparr>"
    and c: "\<forall>i<length (input_texts g).
        length (B ! i) = max_decoder_seq_length g \<and>
        length (C ! i) = max_decoder_seq_length g \<and>
        (input_texts g ! i \<noteq> [] \<longrightarrow>
           length (A ! i) = max_encoder_seq_length g \<and>
           (\<forall>t'<max_encoder_seq_length g.
              A ! i ! t' = one_hot (num_encoder_tokens g)
                (code (input_token_index g) (char_at (input_texts g ! i) t')))) \<and>
        (\<forall>t'<max_decoder_seq_length g.
           B ! i ! t' = one_hot (num_decoder_tokens g)
             (code (target_token_index g) (char_at (target_texts g ! i) t'))) \<and>
        (\<forall>t'<max_decoder_seq_length g.
           C ! i ! t' = one_hot (num_decoder_tokens g)
             (code (target_token_index g) (char_at (tl (target_texts g ! i)) t')))"
    by blast
  have sel: "encoder_input_data g' = A" "decoder_input_data g' = B" "decoder_target_data g' = C"
    using g' by simp_all
  from c i have
    ra: "input_texts g ! i \<noteq> [] \<longrightarrow> (\<forall>t'<max_encoder_seq_length g.
              A ! i ! t' = one_hot (num_encoder_tokens g)
                (code (input_token_index g) (char_at (input_texts g ! i) t')))"
    and rb: "\<forall>t'<max_decoder_seq_length g.
           B ! i ! t' = one_hot (num_decoder_tokens g)
             (code (target_token_index g) (char_at (target_texts g ! i) t'))"
    and rc: "\<forall>t'<max_decoder_seq_length g.
           C ! i ! t' = one_hot (num_decoder_tokens g)
             (code (target_token_index g) (char_at (tl (target_texts g ! i)) t'))"
    by simp_all
  have i': "i < length (target_texts g)" using i load_data_lengths(1) [OF l] by simp
  show "input_texts g ! i \<noteq> [] \<Longrightarrow> t' < max_encoder_seq_length g \<Longrightarrow>
       t' < length (input_texts g ! i) \<or> SPACE \<in> set (input_characters g) \<Longrightarrow>
       \<exists>k<num_encoder_tokens g.
         getitem (input_token_index g) (char_at (input_texts g ! i) t') = Inr k \<and>
         encoder_input_data g' ! i ! t' = one_hot (num_encoder_tokens g) k"
  proof -
    assume ne: "input_texts g ! i \<noteq> []" and t': "t' < max_encoder_seq_length g"
      and sp: "t' < length (input_texts g ! i) \<or> SPACE \<in> set (input_characters g)"
    from char_at_vocab_input [OF l i sp] obtain k where
      k: "k < num_encoder_tokens g"
        "getitem (input_token_index g) (char_at (input_texts g ! i) t') = Inr k" by blast
    from ra ne t' getitem_code [OF k(2)] have "A ! i ! t' = one_hot (num_encoder_tokens g) k"
      by simp
    with k sel show ?thesis by blast
  qed
  show "t' < max_decoder_seq_length g \<Longrightarrow>
       t' < length (target_texts g ! i) \<or> SPACE \<in> set (target_characters g) \<Longrightarrow>
       \<exists>k<num_decoder_tokens g.
         getitem (target_token_index g) (char_at (target_texts g ! i) t') = Inr k \<and>
         decoder_input_data g' ! i ! t' = one_hot (num_decoder_tokens g) k"
  proof -
    assume t': "t' < max_decoder_seq_length g"
      and sp: "t' < length (target_texts g ! i) \<or> SPACE \<in> set (target_characters g)"
    from char_at_vocab_target [OF l i' _ sp] obtain k where
      k: "k < num_decoder_tokens g"
        "getitem (target_token_index g) (char_at (target_texts g ! i) t') = Inr k" by blast
    from rb t' getitem_code [OF k(2)] have "B ! i ! t' = one_hot (num_decoder_tokens g) k"
      by simp
    with k sel show ?thesis by blast
  qed
  show "t' < max_decoder_seq_length g \<Longrightarrow>
       t' < length (tl (target_texts g ! i)) \<or> SPACE \<in> set (target_characters g) \<Longrightarrow>
       \<exists>k<num_decoder_tokens g.
         getitem (target_token_index g) (char_at (tl (target_texts g ! i)) t') = Inr k \<and>
         decoder_target_data g' ! i ! t' = one_hot (num_decoder_tokens g) k"
  proof -
    assume t': "t' < max_decoder_seq_length g"
      and sp: "t' < length (tl (target_texts g ! i)) \<or> SPACE \<in> set (target_characters g)"
    have sub: "set (tl (target_texts g ! i)) \<subseteq> set (target_texts g ! i)"
      by (cases "target_texts g ! i") auto
    from char_at_vocab_target [OF l i' sub sp] obtain k where
      k: "k < num_decoder_tokens g"
        "getitem (target_token_index g) (char_at (tl (target_texts g ! i)) t') = Inr k" by blast
    from rc t' getitem_code [OF k(2)] have "C ! i ! t' = one_hot (num_decoder_tokens g) k"
      by simp
    with k sel show ?thesis by blast
  qed
qed


section \<open>The vectorized data\<close>

lemma load_sample_file: "load_data sample_file = Inr sample_loaded"
  by code_simp

lemma sample_loaded_fields:
  "input_texts sample_loaded = [[97, 32, 98], [98]]"
  "input_characters sample_loaded = [32, 97, 98]"
  "target_characters sample_loaded = [9, 10, 32, 99, 100]"
  "num_encoder_tokens sample_loaded = 3"
  "num_decoder_tokens sample_loaded = 5"
  "max_encoder_seq_length sample_loaded = 3"
  "max_decoder_seq_length sample_loaded = 5"
  by (simp_all add: sample_loaded_def TAB_def NEWLINE_def py_str_of_def code_point_def)

subsection \<open>One-hot rows\<close>

text \<open>
  Claim C9. Take the state the loading statements leave on a data file, and assume that
  every input text is non-empty (every target text is, with its tab and newline) and
  that the space is in the input and in the target vocabulary. Then the fill loops,
  run on that state, complete, and for every sample \<open>i\<close> and every timestep \<open>t\<close>
  of the array the row \<open>encoder_input_data[i][t]\<close> has as many entries as there are
  input tokens, the entry 1 at one index \<open>k\<close> and 0 at all others, where \<open>k\<close> is
  the token index of the text's character at \<open>t\<close> within the text and of the space
  at or beyond the text's length. The same holds for \<open>decoder_input_data[i][t]\<close>
  with the target text and the target tokens.
\<close>
theorem one_hot_rows:
  assumes l: "load_data content = Inr g"
    and ne: "\<forall>s \<in> set (input_texts g). s \<noteq> []"
    and sp: "SPACE \<in> set (input_characters g)" "SPACE \<in> set (target_characters g)"
  shows "\<exists>g'. fill_arrays g = Inr g' \<and>
     (\<forall>i<length (input_texts g).
        (\<forall>t'<max_encoder_seq_length g. \<exists>k<num_encoder_tokens g.
            getitem (input_token_index g) (char_at (input_texts g ! i) t') = Inr k \<and>
            length (encoder_input_data g' ! i ! t') = num_encoder_tokens g \<and>
            (\<forall>j<num_encoder_tokens g.
               encoder_input_data g' ! i ! t' ! j = (if j = k then 1 else 0))) \<and>
        (\<forall>t'<max_decoder_seq_length g. \<exists>k<num_decoder_tokens g.
            getitem (target_token_index g) (char_at (target_texts g ! i) t') = Inr k \<and>
            length (decoder_input_data g' ! i ! t') = num_decoder_tokens g \<and>
            (\<forall>j<num_decoder_tokens g.
               decoder_input_data g' ! i ! t' ! j = (if j = k then 1 else 0))))"
proof -
  from fill_arrays_succeeds [OF l ne sp] obtain g' where f: "fill_arrays g = Inr g'" by blast
  have enc: "\<exists>k<num_encoder_tokens g.
            getitem (input_token_index g) (char_at (input_texts g ! i) t') = Inr k \<and>
            length (encoder_input_data g' ! i ! t') = num_encoder_tokens g \<and>
            (\<forall>j<num_encoder_tokens g.
               encoder_input_data g' ! i ! t' ! j = (if j = k then 1 else 0))"
    if i: "i < length (input_texts g)" and t': "t' < max_encoder_seq_length g" for i t'
  proof -
    from ne i have "input_texts g ! i \<noteq> []" by simp
    from fill_arrays_rows(1) [OF l f i this t'] sp(1) obtain k where
      k: "k < num_encoder_tokens g"
      "getitem (input_token_index g) (char_at (input_texts g ! i) t') = Inr k"
      "encoder_input_data g' ! i ! t' = one_hot (num_encoder_tokens g) k" by blast
    with one_hot_entries [OF k(1)] show ?thesis by auto
  qed
  have dec: "\<exists>k<num_decoder_tokens g.
            getitem (target_token_index g) (char_at (target_texts g ! i) t') = Inr k \<and>
            length (decoder_input_data g' ! i ! t') = num_decoder_tokens g \<and>
            (\<forall>j<num_decoder_tokens g.
               decoder_input_data g' ! i ! t' ! j = (if j = k then 1 else 0))"
    if i: "i < length (input_texts g)" and t': "t' < max_decoder_seq_length g" for i t'
  proof -
    from fill_arrays_rows(2) [OF l f i t'] sp(2) obtain k where
      k: "k < num_decoder_tokens g"
      "getitem (target_token_index g) (char_at (target_texts g ! i) t') = Inr k"
      "decoder_input_data g' ! i ! t' = one_hot (num_decoder_tokens g) k" by blast
    with one_hot_entries [OF k(1)] show ?thesis by auto
  qed
  from f enc dec show ?thesis by blast
qed

theorem one_hot_rows_witness:
  "load_data sample_file = Inr sample_loaded \<and>
   (\<exists>g'. fill_arrays sample_loaded = Inr g' \<and>
      (\<exists>k<3. getitem (input_token_index sample_loaded) SPACE = Inr k \<and>
              length (encoder_input_data g' ! 1 ! 2) = 3 \<and>
              encoder_input_data g' ! 1 ! 2 ! k = 1))"
proof -
  have ne: "\<forall>s \<in> set (input_texts sample_loaded). s \<noteq> []"
    by (simp add: sample_loaded_fields)
  have sp: "SPACE \<in> set (input_characters sample_loaded)"
    "SPACE \<in> set (target_characters sample_loaded)"
    by (simp_all add: sample_loaded_fields SPACE_def)
  from one_hot_rows [OF load_sample_file ne sp] obtain g' where
    f: "fill_arrays sample_loaded = Inr g'"
    and r: "\<forall>i<length (input_texts sample_loaded).
        (\<forall>t'<max_encoder_seq_length sample_loaded. \<exists>k<num_encoder_tokens sample_loaded.
            getitem (input_token_index sample_loaded)
              (char_at (input_texts sample_loaded ! i) t') = Inr k \<and>
            length (encoder_input_data g' ! i ! t') = num_encoder_tokens sample_loaded \<and>
            (\<forall>j<num_encoder_tokens sample_loaded.
               encoder_input_data g' ! i ! t' ! j = (if j = k then 1 else 0)))"
    by blast
  have "1 < length (input_texts sample_loaded)" "2 < max_encoder_seq_length sample_loaded"
    by (simp_all add: sample_loaded_fields)
  with r obtain k where "k < num_encoder_tokens sample_loaded"
     "getitem (input_token_index sample_loaded)
              (char_at (input_texts sample_loaded ! 1) 2) = Inr k"
     "length (encoder_input_data g' ! 1 ! 2) = num_encoder_tokens sample_loaded"
     "\<forall>j<num_encoder_tokens sample_loaded.
               encoder_input_data g' ! 1 ! 2 ! j = (if j = k then 1 else 0)"
    by blast
  then have "k < 3 \<and> getitem (input_token_index sample_loaded) SPACE = Inr k \<and>
              length (encoder_input_data g' ! 1 ! 2) = 3 \<and>
              encoder_input_data g' ! 1 ! 2 ! k = 1"
    by (simp add: sample_loaded_fields char_at_def)
  with f load_sample_file show ?thesis by blast
qed


subsection \<open>Token indices and reverse lookup\<close>

text \<open>
  Claim C10. For every character \<open>c\<close> of the sorted target vocabulary,
  \<open>reverse_target_char_index[target_token_index[c]] = c\<close>; for every index \<open>k\<close>
  below the number of target tokens, \<open>reverse_target_char_index[k]\<close> is a character
  of the vocabulary and \<open>target_token_index\<close> maps it back to \<open>k\<close>. The same
  holds for the input-side tables. Each lookup is a function of its key, so an index has
  one character.
\<close>

theorem reverse_lookup_roundtrip:
  assumes l: "load_data content = Inr g"
  shows
   "(\<forall>c \<in> set (target_characters g). \<exists>k<num_decoder_tokens g.
        getitem (target_token_index g) c = Inr k \<and>
        getitem (reverse_target_char_index (sampling_cell enc dec g)) k = Inr c) \<and>
    (\<forall>k<num_decoder_tokens g. \<exists>c \<in> set (target_characters g).
        getitem (reverse_target_char_index (sampling_cell enc dec g)) k = Inr c \<and>
        getitem (target_token_index g) c = Inr k) \<and>
    (\<forall>c \<in> set (input_characters g). \<exists>k<num_encoder_tokens g.
        getitem (input_token_index g) c = Inr k \<and>
        getitem (reverse_input_char_index (sampling_cell enc dec g)) k = Inr c) \<and>
    (\<forall>k<num_encoder_tokens g. \<exists>c \<in> set (input_characters g).
        getitem (reverse_input_char_index (sampling_cell enc dec g)) k = Inr c \<and>
        getitem (input_token_index g) c = Inr k)"
proof -
  note ld = load_data_Inr [OF l]
  let ?tc = "target_characters g" and ?ic = "input_characters g"
  have dt: "distinct ?tc" and di: "distinct ?ic" using ld(5,6) by simp_all
  have rt: "reverse_target_char_index (sampling_cell enc dec g) = reverse_index (token_index ?tc)"
    and ri: "reverse_input_char_index (sampling_cell enc dec g) = reverse_index (token_index ?ic)"
    using ld(11,12) by (simp_all add: sampling_cell_def notebook.defs sampling.defs)
  have t1: "\<exists>k<num_decoder_tokens g. getitem (target_token_index g) c = Inr k \<and>
        getitem (reverse_target_char_index (sampling_cell enc dec g)) k = Inr c"
    if "c \<in> set ?tc" for c
  proof -
    from that obtain k where k: "k < length ?tc" "?tc ! k = c" by (auto simp: in_set_conv_nth)
    from token_index_nth [OF dt k(1)] reverse_index_nth [OF dt k(1)] k ld(8,12) rt
    show ?thesis by auto
  qed
  have t2: "\<exists>c \<in> set ?tc. getitem (reverse_target_char_index (sampling_cell enc dec g)) k = Inr c \<and>
        getitem (target_token_index g) c = Inr k"
    if "k < num_decoder_tokens g" for k
  proof -
    from that ld(8) have k: "k < length ?tc" by simp
    from token_index_nth [OF dt k] reverse_index_nth [OF dt k] k ld(12) rt
    show ?thesis by (intro bexI[of _ "?tc ! k"]) auto
  qed
  have i1: "\<exists>k<num_encoder_tokens g. getitem (input_token_index g) c = Inr k \<and>
        getitem (reverse_input_char_index (sampling_cell enc dec g)) k = Inr c"
    if "c \<in> set ?ic" for c
  proof -
    from that obtain k where k: "k < length ?ic" "?ic ! k = c" by (auto simp: in_set_conv_nth)
    from token_index_nth [OF di k(1)] reverse_index_nth [OF di k(1)] k ld(7,11) ri
    show ?thesis by auto
  qed
  have i2: "\<exists>c \<in> set ?ic. getitem (reverse_input_char_index (sampling_cell enc dec g)) k = Inr c \<and>
        getitem (input_token_index g) c = Inr k"
    if "k < num_encoder_tokens g" for k
  proof -
    from that ld(7) have k: "k < length ?ic" by simp
    from token_index_nth [OF di k] reverse_index_nth [OF di k] k ld(11) ri
    show ?thesis by (intro bexI[of _ "?ic ! k"]) auto
  qed
  from t1 t2 i1 i2 show ?thesis by blast
qed

theorem reverse_lookup_roundtrip_witness:
  "load_data sample_file = Inr sample_loaded \<and>
   (\<exists>k<5. getitem (target_token_index sample_loaded) (code_point (CHR ''d'')) = Inr k \<and>
      getitem (reverse_target_char_index (sampling_cell (encoder_model toy) (decoder_model toy) sample_loaded)) k = Inr (code_point (CHR ''d'')))"
proof -
  have "code_point (CHR ''d'') \<in> set (target_characters sample_loaded)"
    by (simp add: sample_loaded_fields code_point_def)
  with reverse_lookup_roundtrip [OF load_sample_file, of "encoder_model toy" "decoder_model toy"]
  have "\<exists>k<num_decoder_tokens sample_loaded.
        getitem (target_token_index sample_loaded) (code_point (CHR ''d'')) = Inr k \<and>
        getitem (reverse_target_char_index (sampling_cell (encoder_model toy) (decoder_model toy) sample_loaded)) k = Inr (code_point (CHR ''d''))"
    by blast
  with load_sample_file show ?thesis by (simp add: sample_loaded_fields)
qed

subsection \<open>Running the cell\<close>

text \<open>
  Claim C2, as stated, lets a line have two tab-separated fields. The loop unpacks every
  line into exactly three names: on a file whose only line has two fields the cell
  raises ValueError.
\<close>

theorem two_fields_counterexample:
  "loaded_lines two_field_file = [py_str_of ''a b'' @ [TAB] @ py_str_of ''c d''] \<and>
   split_on TAB (py_str_of ''a b'' @ [TAB] @ py_str_of ''c d'') = [py_str_of ''a b'', py_str_of ''c d''] \<and>
   load_data two_field_file = Inl ValueError \<and>
   vectorize_cell two_field_file = Inl ValueError"
  by code_simp

text \<open>
  Claim C2, amended. Let the lines the loop reads (the first
  \<open>min(num_samples, len(lines) - 1)\<close> lines of the file) be at least one, each with
  exactly three tab-separated fields and a non-empty first field, and let the space
  occur in some first field and in some second field. Then the statements of the cell
  up to the allocation of the three zero arrays complete, with one input text and one
  target text per line read; and the fill loops, run on the state these statements
  leave, complete as well: each of the three arrays has one block per line read, and
  every row of every block is a one-hot row.
\<close>

theorem vectorization_runs:
  assumes some: "loaded_lines content \<noteq> []"
    and three: "\<forall>l \<in> set (loaded_lines content).
                  length (split_on TAB l) = 3 \<and> split_on TAB l ! 0 \<noteq> []"
    and sp_in: "\<exists>l \<in> set (loaded_lines content). SPACE \<in> set (split_on TAB l ! 0)"
    and sp_tg: "\<exists>l \<in> set (loaded_lines content). SPACE \<in> set (split_on TAB l ! 1)"
  shows "\<exists>g g'. load_data content = Inr g \<and> fill_arrays g = Inr g' \<and>
     input_texts g = map (\<lambda>l. split_on TAB l ! 0) (loaded_lines content) \<and>
     target_texts g = map (\<lambda>l. [TAB] @ split_on TAB l ! 1 @ [NEWLINE]) (loaded_lines content) \<and>
     length (encoder_input_data g') = length (loaded_lines content) \<and>
     length (decoder_input_data g') = length (loaded_lines content) \<and>
     length (decoder_target_data g') = length (loaded_lines content) \<and>
     (\<forall>i<length (loaded_lines content).
        (\<forall>t'<max_encoder_seq_length g. \<exists>k<num_encoder_tokens g.
            encoder_input_data g' ! i ! t' = one_hot (num_encoder_tokens g) k) \<and>
        (\<forall>t'<max_decoder_seq_length g. \<exists>k<num_decoder_tokens g.
            decoder_input_data g' ! i ! t' = one_hot (num_decoder_tokens g) k) \<and>
        (\<forall>t'<max_decoder_seq_length g. \<exists>k<num_decoder_tokens g.
            decoder_target_data g' ! i ! t' = one_hot (num_decoder_tokens g) k))"
proof -
  from three have three': "\<forall>l \<in> set (loaded_lines content). length (split_on TAB l) = 3"
    by blast
  from load_data_succeeds [OF some three'] obtain g where l: "load_data content = Inr g"
    by blast
  note ld = load_data_Inr [OF l]
  have N: "length (input_texts g) = length (loaded_lines content)" using ld(3) by simp
  have ne: "\<forall>s \<in> set (input_texts g). s \<noteq> []" using ld(3) three by auto
  have fin: "finite (\<Union> (set ` set (input_texts g)))" "finite (\<Union> (set ` set (target_texts g)))"
    by simp_all
  have sp: "SPACE \<in> set (input_characters g)" "SPACE \<in> set (target_characters g)"
  proof -
    from sp_in obtain l where "l \<in> set (loaded_lines content)" "SPACE \<in> set (split_on TAB l ! 0)"
      by blast
    then have "SPACE \<in> \<Union> (set ` set (input_texts g))" unfolding ld(3) by auto
    then show "SPACE \<in> set (input_characters g)" unfolding ld(5) using fin(1) by simp
    from sp_tg obtain l where "l \<in> set (loaded_lines content)" "SPACE \<in> set (split_on TAB l ! 1)"
      by blast
    then have "SPACE \<in> \<Union> (set ` set (target_texts g))" unfolding ld(4) by auto
    then show "SPACE \<in> set (target_characters g)" unfolding ld(6) using fin(2) by simp
  qed
  from fill_arrays_succeeds [OF l ne sp] obtain g' where f: "fill_arrays g = Inr g'" by blast
  from fill_arrays_content [OF l f] obtain tv A B C where
    g': "g' = g\<lparr>t := tv, encoder_input_data := A, decoder_input_data := B,
            decoder_target_data := C\<rparr>"
    and len: "length A = length (input_texts g)" "length B = length (input_texts g)"
      "length C = length (input_texts g)"
    by blast
  have lens: "length (encoder_input_data g') = length (loaded_lines content)"
    "length (decoder_input_data g') = length (loaded_lines content)"
    "length (decoder_target_data g') = length (loaded_lines content)"
    using g' len N by simp_all
  have rows: "(\<forall>t'<max_encoder_seq_length g. \<exists>k<num_encoder_tokens g.
            encoder_input_data g' ! i ! t' = one_hot (num_encoder_tokens g) k) \<and>
        (\<forall>t'<max_decoder_seq_length g. \<exists>k<num_decoder_tokens g.
            decoder_input_data g' ! i ! t' = one_hot (num_decoder_tokens g) k) \<and>
        (\<forall>t'<max_decoder_seq_length g. \<exists>k<num_decoder_tokens g.
            decoder_target_data g' ! i ! t' = one_hot (num_decoder_tokens g) k)"
    if "i < length (loaded_lines content)" for i
  proof -
    from that N have i: "i < length (input_texts g)" by simp
    with ne have nei: "input_texts g ! i \<noteq> []" by simp
    have "\<exists>k<num_encoder_tokens g.
            encoder_input_data g' ! i ! t' = one_hot (num_encoder_tokens g) k"
      if "t' < max_encoder_seq_length g" for t'
      using fill_arrays_rows(1) [OF l f i nei that] sp(1) by blast
    moreover have "\<exists>k<num_decoder_tokens g.
            decoder_input_data g' ! i ! t' = one_hot (num_decoder_tokens g) k"
      if "t' < max_decoder_seq_length g" for t'
      using fill_arrays_rows(2) [OF l f i that] sp(2) by blast
    moreover have "\<exists>k<num_decoder_tokens g.
            decoder_target_data g' ! i ! t' = one_hot (num_decoder_tokens g) k"
      if "t' < max_decoder_seq_length g" for t'
      using fill_arrays_rows(3) [OF l f i that] sp(2) by blast
    ultimately show ?thesis by blast
  qed
  from l f ld(3,4) lens rows show ?thesis by blast
qed


lemma sample_lines:
  "loaded_lines sample_file = [[97, 32, 98, 9, 99, 32, 100, 9, 120], [98, 9, 99, 9, 120]]"
  "split_on TAB [97, 32, 98, 9, 99, 32, 100, 9, 120] = [[97, 32, 98], [99, 32, 100], [120]]"
  "split_on TAB [98, 9, 99, 9, 120] = [[98], [99], [120]]"
  by code_simp+

theorem vectorization_runs_witness:
  "\<exists>g g'. load_data sample_file = Inr g \<and> fill_arrays g = Inr g' \<and>
     length (encoder_input_data g') = 2 \<and> length (decoder_target_data g') = 2"
proof -
  have some: "loaded_lines sample_file \<noteq> []" by (simp add: sample_lines(1) TAB_def)
  have three: "\<forall>l \<in> set (loaded_lines sample_file).
                  length (split_on TAB l) = 3 \<and> split_on TAB l ! 0 \<noteq> []"
    by (simp add: sample_lines(1) TAB_def)
  have sp_in: "\<exists>l \<in> set (loaded_lines sample_file). SPACE \<in> set (split_on TAB l ! 0)"
    by (simp add: sample_lines(1) TAB_def SPACE_def)
  have sp_tg: "\<exists>l \<in> set (loaded_lines sample_file). SPACE \<in> set (split_on TAB l ! 1)"
    by (simp add: sample_lines(1) TAB_def SPACE_def)
  have n: "length (loaded_lines sample_file) = 2" by (simp add: sample_lines(1) TAB_def)
  from vectorization_runs [OF some three sp_in sp_tg] n show ?thesis by auto
qed

subsection \<open>Teacher forcing\<close>

text \<open>
  The loops themselves: for \<open>1 \<le> t < len(target_text)\<close> the decoder target at \<open>t - 1\<close>
  and the decoder input at \<open>t\<close> are the one-hot row of the same character.
\<close>

lemma fill_loops_teacher_forcing:
  assumes l: "load_data content = Inr g" and f: "fill_arrays g = Inr g'"
    and i: "i < length (target_texts g)"
    and t': "1 \<le> t'" "t' < length (target_texts g ! i)"
  shows "\<exists>k<num_decoder_tokens g.
           getitem (target_token_index g) (target_texts g ! i ! t') = Inr k \<and>
           decoder_input_data g' ! i ! t' = one_hot (num_decoder_tokens g) k \<and>
           decoder_target_data g' ! i ! (t' - 1) = one_hot (num_decoder_tokens g) k \<and>
           fit_decoder_inputs (training_call g') = decoder_input_data g' \<and>
           fit_targets (training_call g') = decoder_target_data g'"
proof -
  let ?s = "target_texts g ! i"
  from i have i': "i < length (input_texts g)" using load_data_lengths(1) [OF l] by simp
  from i have "?s \<in> set (target_texts g)" by simp
  with load_data_Inr(10) [OF l] have le: "length ?s \<le> max_decoder_seq_length g" by blast
  have c1: "char_at ?s t' = ?s ! t'" using t' by (simp add: char_at_def)
  have c2: "char_at (tl ?s) (t' - 1) = ?s ! t'"
    using t' by (cases ?s) (auto simp: char_at_def nth_Cons')
  have b1: "t' < max_decoder_seq_length g" using t' le by simp
  have b2: "t' - 1 < max_decoder_seq_length g" using t' le by simp
  have b3: "t' - 1 < length (tl ?s)" using t' by simp
  from fill_arrays_rows(2) [OF l f i' b1] t'(2) c1 obtain k where
    k: "k < num_decoder_tokens g" "getitem (target_token_index g) (?s ! t') = Inr k"
      "decoder_input_data g' ! i ! t' = one_hot (num_decoder_tokens g) k"
    by auto
  from fill_arrays_rows(3) [OF l f i' b2] b3 c2 obtain k' where
    k': "getitem (target_token_index g) (?s ! t') = Inr k'"
      "decoder_target_data g' ! i ! (t' - 1) = one_hot (num_decoder_tokens g) k'"
    by auto
  from k k' have "k' = k" by simp
  with k k' show ?thesis by (auto simp: training_call_def)
qed

text \<open>
  Claim C3 on the cell as it is written. On \<open>sample_file\<close> the cell raises NameError
  at the statement \<open>w\<close>, after the arrays are allocated and before the fill loops.
  The arrays the training call is given are the ones \<open>np.zeros\<close> returned: the row
  \<open>decoder_target_data[0][0]\<close> and the row \<open>decoder_input_data[0][1]\<close> are zero
  rows, not the one-hot row of the target text's character \<open>c\<close>.
\<close>

theorem teacher_forcing_not_reached:
  "vectorize_cell sample_file = Inl NameError \<and>
   load_data sample_file = Inr sample_loaded \<and>
   decoder_input_data sample_loaded ! 0 ! 1 = [0, 0, 0, 0, 0] \<and>
   decoder_target_data sample_loaded ! 0 ! 0 = [0, 0, 0, 0, 0] \<and>
   fit_decoder_inputs (training_call sample_loaded) = decoder_input_data sample_loaded \<and>
   fit_targets (training_call sample_loaded) = decoder_target_data sample_loaded"
proof -
  have "vectorize_cell sample_file = Inl NameError"
    by (simp add: vectorize_cell_def load_sample_file name_w_def)
  moreover have "decoder_input_data sample_loaded ! 0 ! 1 = [0, 0, 0, 0, 0]"
    "decoder_target_data sample_loaded ! 0 ! 0 = [0, 0, 0, 0, 0]"
    by (simp_all add: sample_loaded_def np_zeros3_def numeral_eq_Suc)
  ultimately show ?thesis
    using load_sample_file by (simp add: training_call_def)
qed


section \<open>The MLP training call\<close>

lemma improved_best_upto:
  "improved metric e \<longleftrightarrow> (case best_upto metric e of None \<Rightarrow> True | Some b \<Rightarrow> metric e < b)"
proof (cases "e = 0")
  case True
  then show ?thesis by (simp add: improved_def best_upto_def)
next
  case False
  then have "finite (metric ` {..<e})" "metric ` {..<e} \<noteq> {}" by auto
  then have "metric e < Min (metric ` {..<e}) \<longleftrightarrow> (\<forall>a \<in> metric ` {..<e}. metric e < a)"
    by (rule Min_gr_iff)
  with False show ?thesis by (auto simp: improved_def best_upto_def)
qed

lemma best_upto_Suc:
  "best_upto metric (Suc e) = (if improved metric e then Some (metric e) else best_upto metric e)"
proof (cases "e = 0")
  case True
  then show ?thesis by (simp add: improved_def best_upto_def lessThan_Suc)
next
  case False
  then have fin: "finite (metric ` {..<e})" "metric ` {..<e} \<noteq> {}" by auto
  have "Min (metric ` {..<Suc e}) = min (metric e) (Min (metric ` {..<e}))"
    using fin by (simp add: lessThan_Suc)
  moreover have "improved metric e \<longleftrightarrow> metric e < Min (metric ` {..<e})"
    using improved_best_upto [of metric e] False by (simp add: best_upto_def)
  ultimately show ?thesis using False by (auto simp: best_upto_def min_def)
qed

lemma training_loop_spec:
  assumes "1 \<le> p" "best = best_upto metric e" "wait < p" "wait \<le> e"
    "\<forall>e'. e - wait \<le> e' \<and> e' < e \<longrightarrow> \<not> improved metric e'"
    "wait < e \<longrightarrow> improved metric (e - wait - 1)"
    "\<forall>k\<le>e. \<not> stalled p metric k"
  shows "e \<le> training_loop r p metric e best wait \<and>
         training_loop r p metric e best wait \<le> e + r \<and>
         (training_loop r p metric e best wait < e + r \<longrightarrow>
            stalled p metric (training_loop r p metric e best wait)) \<and>
         (\<forall>k<training_loop r p metric e best wait. \<not> stalled p metric k)"
  using assms
proof (induction r arbitrary: e best wait)
  case 0
  then show ?case by auto
next
  case (Suc r)
  let ?better = "improved metric e"
  let ?wait' = "if ?better then 0 else wait + 1"
  let ?best' = "best_upto metric (Suc e)"
  have better: "(case best of None \<Rightarrow> True | Some b \<Rightarrow> metric e < b) = ?better"
    using improved_best_upto [of metric e] Suc.prems(2) by simp
  have best': "(if ?better then Some (metric e) else best) = ?best'"
    using best_upto_Suc [of metric e] Suc.prems(2) by simp
  have unfold: "training_loop (Suc r) p metric e best wait =
      (if ?wait' \<ge> p then Suc e else training_loop r p metric (Suc e) ?best' ?wait')"
    using better best' by (simp add: Let_def)
  show ?case
  proof (cases "?wait' \<ge> p")
    case True
    then have nb: "\<not> ?better" and w: "wait + 1 = p" using Suc.prems(1,3) by (auto split: if_splits)
    have "stalled p metric (Suc e)"
      unfolding stalled_def
    proof (intro conjI allI impI)
      show "p \<le> Suc e" using w Suc.prems(4) by simp
      fix e' assume "Suc e - p \<le> e' \<and> e' < Suc e"
      then have "e' = e \<or> (e - wait \<le> e' \<and> e' < e)" using w by auto
      then show "\<not> improved metric e'" using nb Suc.prems(5) by auto
    qed
    moreover have "\<forall>k<Suc e. \<not> stalled p metric k" using Suc.prems(7) by simp
    ultimately show ?thesis using True unfold by simp
  next
    case False
    then have w': "?wait' < p" by simp
    have ns: "\<not> stalled p metric (Suc e)"
    proof (cases ?better)
      case True
      have "Suc e - p \<le> e \<and> e < Suc e" using Suc.prems(1) by simp
      with True show ?thesis unfolding stalled_def by blast
    next
      case nb: False
      with w' have wp: "wait + 1 < p" by simp
      show ?thesis
      proof (cases "wait < e")
        case True
        with Suc.prems(6) have "improved metric (e - wait - 1)" by simp
        moreover have "Suc e - p \<le> e - wait - 1" "e - wait - 1 < Suc e" using wp True by auto
        ultimately show ?thesis by (auto simp: stalled_def)
      next
        case False
        with Suc.prems(4) have "wait = e" by simp
        with wp have "Suc e < p" by simp
        then show ?thesis by (simp add: stalled_def)
      qed
    qed
    have IH: "Suc e \<le> training_loop r p metric (Suc e) ?best' ?wait' \<and>
         training_loop r p metric (Suc e) ?best' ?wait' \<le> Suc e + r \<and>
         (training_loop r p metric (Suc e) ?best' ?wait' < Suc e + r \<longrightarrow>
            stalled p metric (training_loop r p metric (Suc e) ?best' ?wait')) \<and>
         (\<forall>k<training_loop r p metric (Suc e) ?best' ?wait'. \<not> stalled p metric k)"
    proof (rule Suc.IH)
      show "1 \<le> p" by (rule Suc.prems(1))
      show "?best' = best_upto metric (Suc e)" by simp
      show "?wait' < p" by (rule w')
      show "?wait' \<le> Suc e" using Suc.prems(4) by simp
      show "\<forall>e'. Suc e - ?wait' \<le> e' \<and> e' < Suc e \<longrightarrow> \<not> improved metric e'"
      proof (intro allI impI)
        fix e' assume a: "Suc e - ?wait' \<le> e' \<and> e' < Suc e"
        show "\<not> improved metric e'"
        proof (cases ?better)
          case True
          with a have "Suc e \<le> e'" "e' < Suc e" by simp_all
          then show ?thesis by simp
        next
          case False
          with a have "e' = e \<or> (e - wait \<le> e' \<and> e' < e)" by auto
          with False Suc.prems(5) show ?thesis by auto
        qed
      qed
      show "?wait' < Suc e \<longrightarrow> improved metric (Suc e - ?wait' - 1)"
        using Suc.prems(6) by auto
      show "\<forall>k\<le>Suc e. \<not> stalled p metric k"
        using Suc.prems(7) ns by (auto simp: le_Suc_eq)
    qed
    with False unfold show ?thesis by auto
  qed
qed


text \<open>
  Claim C6. The training call passes an early-stopping callback of patience 7 and 50
  epochs. Whatever values the monitored validation metric takes, the loop runs at most
  50 epochs; when it runs fewer, it stops right after 7 consecutive epochs none of
  which improved on the best value before it; and it stops the first time this happens:
  at no earlier epoch count had the last 7 epochs all failed to improve.
\<close>

theorem early_stopping_halts:
  "patience early_stopping_monitor = 7 \<and>
   mlp_callbacks mlp_fit_call = [early_stopping_monitor] \<and>
   epochs_run mlp_fit_call metric \<le> 50 \<and>
   (epochs_run mlp_fit_call metric < 50 \<longrightarrow>
      stalled 7 metric (epochs_run mlp_fit_call metric)) \<and>
   (\<forall>k<epochs_run mlp_fit_call metric. \<not> stalled 7 metric k)"
proof -
  have run: "epochs_run mlp_fit_call metric = training_loop 50 7 metric 0 None 0"
    by (simp add: epochs_run_def mlp_fit_call_def early_stopping_monitor_def)
  have "0 \<le> training_loop 50 7 metric 0 None 0 \<and>
         training_loop 50 7 metric 0 None 0 \<le> 0 + 50 \<and>
         (training_loop 50 7 metric 0 None 0 < 0 + 50 \<longrightarrow>
            stalled 7 metric (training_loop 50 7 metric 0 None 0)) \<and>
         (\<forall>k<training_loop 50 7 metric 0 None 0. \<not> stalled 7 metric k)"
    by (rule training_loop_spec) (simp_all add: best_upto_def stalled_def)
  with run show ?thesis
    by (simp add: mlp_fit_call_def early_stopping_monitor_def)
qed

lemma plateau_run: "epochs_run mlp_fit_call plateau = 10"
  by code_simp

theorem early_stopping_halts_witness:
  "epochs_run mlp_fit_call plateau = 10 \<and> stalled 7 plateau 10 \<and> \<not> stalled 7 plateau 9"
  using early_stopping_halts [of plateau] by (simp add: plateau_run)

section \<open>The MLP preprocessing\<close>


lemma length_concat_uniform:
  "\<forall>xs \<in> set xss. length xs = m \<Longrightarrow> length (concat xss) = length xss * m"
  by (induction xss) auto

lemma nth_concat_uniform:
  "\<forall>xs \<in> set xss. length xs = m \<Longrightarrow> i < length xss \<Longrightarrow> j < m \<Longrightarrow>
   concat xss ! (i * m + j) = xss ! i ! j"
proof (induction xss arbitrary: i)
  case Nil
  then show ?case by simp
next
  case (Cons xs xss)
  show ?case
  proof (cases i)
    case 0
    with Cons.prems show ?thesis by (simp add: nth_append)
  next
    case (Suc i')
    with Cons.prems have "concat xss ! (i' * m + j) = xss ! i' ! j"
      by (intro Cons.IH) auto
    moreover have "length xs = m" using Cons.prems by simp
    ultimately show ?thesis using Suc by (simp add: nth_append add.assoc)
  qed
qed

lemma index_bound: "i < n \<Longrightarrow> j < (m::nat) \<Longrightarrow> i * m + j < n * m"
proof -
  assume a: "i < n" "j < m"
  then have "i * m + j < i * m + m" by simp
  also have "\<dots> = Suc i * m" by simp
  also have "\<dots> \<le> n * m" using a(1) by (intro mult_le_mono1) simp
  finally show ?thesis .
qed

lemma flatten4_shape:
  assumes "has_shape4 n a b c X"
  shows "length (flatten4 X) = n * a * b * c"
    and "i < n \<Longrightarrow> p < a \<Longrightarrow> q < b \<Longrightarrow> r < c \<Longrightarrow>
         flatten4 X ! (((i * a + p) * b + q) * c + r) = X ! i ! p ! q ! r"
proof -
  from assms have n: "length X = n" and u1: "\<forall>img \<in> set X. length img = a"
    and u2: "\<forall>row \<in> set (concat X). length row = b"
    and u3: "\<forall>px \<in> set (concat (concat X)). length px = c"
    by (auto simp: has_shape4_def)
  have l1: "length (concat X) = n * a" using length_concat_uniform [OF u1] n by simp
  have l2: "length (concat (concat X)) = n * a * b"
    using length_concat_uniform [OF u2] l1 by simp
  show "length (flatten4 X) = n * a * b * c"
    using length_concat_uniform [OF u3] l2 by (simp add: flatten4_def)
  assume i: "i < n" and p: "p < a" and q: "q < b" and r: "r < c"
  have b1: "i * a + p < length (concat X)" using index_bound [OF i p] l1 by simp
  have b2: "(i * a + p) * b + q < length (concat (concat X))"
    using index_bound [OF _ q, of "i * a + p" "n * a"] b1 l1 l2 by simp
  have "flatten4 X ! (((i * a + p) * b + q) * c + r) = concat (concat X) ! ((i * a + p) * b + q) ! r"
    unfolding flatten4_def by (rule nth_concat_uniform [OF u3 b2 r])
  also have "concat (concat X) ! ((i * a + p) * b + q) = concat X ! (i * a + p) ! q"
    by (rule nth_concat_uniform [OF u2 b1 q])
  also have "concat X ! (i * a + p) = X ! i ! p"
    using i n by (intro nth_concat_uniform [OF u1 _ p]) simp
  finally show "flatten4 X ! (((i * a + p) * b + q) * c + r) = X ! i ! p ! q ! r" .
qed

lemma concat_rows:
  "r * c \<le> length flat \<Longrightarrow>
   concat (map (\<lambda>i. take c (drop (i * c) flat)) [0..<r]) = take (r * c) flat"
proof (induction r)
  case 0
  then show ?case by simp
next
  case (Suc r)
  then have "concat (map (\<lambda>i. take c (drop (i * c) flat)) [0..<r]) = take (r * c) flat"
    by simp
  then have "concat (map (\<lambda>i. take c (drop (i * c) flat)) [0..<Suc r]) =
             take (r * c) flat @ take c (drop (r * c) flat)"
    by simp
  also have "\<dots> = take (r * c + c) flat" by (simp only: take_add)
  also have "r * c + c = Suc r * c" by simp
  finally show ?case .
qed



lemma row_bound: "i < rows \<Longrightarrow> i * cols + cols \<le> rows * (cols::nat)"
proof -
  assume "i < rows"
  then have "Suc i \<le> rows" by simp
  then have "Suc i * cols \<le> rows * cols" by (rule mult_le_mono1)
  then show ?thesis by (simp add: add.commute)
qed

lemma reshaped_row:
  assumes "length flat = rows * cols" "i < rows"
  shows "length (take cols (drop (i * cols) flat)) = cols"
    and "j < cols \<Longrightarrow> take cols (drop (i * cols) flat) ! j = flat ! (i * cols + j)"
proof -
  from row_bound [OF assms(2), of cols] assms(1)
  have b: "i * cols + cols \<le> length flat" by simp
  then show "length (take cols (drop (i * cols) flat)) = cols" by simp
  assume "j < cols"
  with b show "take cols (drop (i * cols) flat) ! j = flat ! (i * cols + j)" by simp
qed

lemma np_reshape2_Inr:
  assumes "length flat = rows * cols"
  shows "\<exists>A. np_reshape2 rows cols flat = Inr A \<and> length A = rows \<and>
           (\<forall>i<rows. length (A ! i) = cols) \<and> concat A = flat \<and>
           (\<forall>i<rows. \<forall>j<cols. A ! i ! j = flat ! (i * cols + j))"
proof -
  let ?A = "map (\<lambda>i. take cols (drop (i * cols) flat)) [0..<rows]"
  have 0: "np_reshape2 rows cols flat = Inr ?A" using assms by (simp add: np_reshape2_def)
  have 1: "\<forall>i<rows. length (?A ! i) = cols"
    using reshaped_row(1) [OF assms] by simp
  have "concat ?A = take (rows * cols) flat"
    by (rule concat_rows) (simp add: assms)
  then have 2: "concat ?A = flat" using assms by simp
  have 3: "\<forall>i<rows. \<forall>j<cols. ?A ! i ! j = flat ! (i * cols + j)"
    using reshaped_row(2) [OF assms] by simp
  from 0 1 2 3 show ?thesis by (intro exI[of _ ?A]) simp
qed



lemma pixel_index:
  assumes "p < 32" "q < 32" "r < (3::nat)"
  shows "(p * 32 + q) * 3 + r < 3072"
proof -
  from index_bound [OF assms(1,2)] have "p * 32 + q < 32 * 32" .
  from index_bound [OF this assms(3)] show ?thesis by simp
qed

lemma gaussian_stats:
  assumes c: "concat A = flatten4 X" and ne: "flatten4 X \<noteq> []"
  shows "np_mean (map (map as_float) A) = Some (array_mean X)"
    and "np_std (map (map as_float) A) = Some (sqrt (array_variance X))"
proof -
  have cc: "concat (map (map as_float) A) = map as_float (flatten4 X)"
    using c by (simp add: map_concat [symmetric])
  from ne have len: "real (length (flatten4 X)) \<noteq> 0" by simp
  have s0: "sum_list (map as_float (flatten4 X)) =
            sum_list (map (\<lambda>w. real (unat w)) (flatten4 X))"
    by (simp add: as_float_def [abs_def])
  show m: "np_mean (map (map as_float) A) = Some (array_mean X)"
    unfolding np_mean_def cc using len s0 by (simp add: fdiv_def array_mean_def)
  have s: "sum_list (map (\<lambda>x. (x - array_mean X)\<^sup>2) (map as_float (flatten4 X))) =
           sum_list (map (\<lambda>w. (real (unat w) - array_mean X)\<^sup>2) (flatten4 X))"
    by (simp add: comp_def as_float_def)
  show "np_std (map (map as_float) A) = Some (sqrt (array_variance X))"
    unfolding np_std_def m cc using len s by (simp add: fdiv_def array_variance_def comp_def)
qed

lemma normalized_array:
  assumes sh: "has_shape4 n 32 32 3 X" and n: "0 < n"
  shows "\<exists>A. np_reshape2 n 3072 (flatten4 X) = Inr A \<and> length A = n \<and>
     length (gaussian (map (map as_float) A)) = n \<and>
     (\<forall>i<n. length (A ! i) = 3072 \<and> length (gaussian (map (map as_float) A) ! i) = 3072 \<and>
        (\<forall>p<32. \<forall>q<32. \<forall>r<3.
           A ! i ! ((p * 32 + q) * 3 + r) = X ! i ! p ! q ! r \<and>
           gaussian (map (map as_float) A) ! i ! ((p * 32 + q) * 3 + r) =
             (if array_variance X = 0 then None
              else Some ((real (unat (X ! i ! p ! q ! r)) - array_mean X) /
                         sqrt (array_variance X)))))"
proof -
  have len: "length (flatten4 X) = n * 3072" using flatten4_shape(1) [OF sh] by simp
  from np_reshape2_Inr [OF len] obtain A where
    A: "np_reshape2 n 3072 (flatten4 X) = Inr A" "length A = n"
      "\<forall>i<n. length (A ! i) = 3072" "concat A = flatten4 X"
      "\<forall>i<n. \<forall>j<3072. A ! i ! j = flatten4 X ! (i * 3072 + j)"
    by blast
  have ne: "flatten4 X \<noteq> []" using len n by auto
  note st = gaussian_stats [OF A(4) ne]
  have gl: "length (gaussian (map (map as_float) A)) = n"
    using A(2) by (simp add: gaussian_def)
  have gr: "length (gaussian (map (map as_float) A) ! i) = 3072" if "i < n" for i
    using that A(2,3) by (simp add: gaussian_def)
  have ent: "A ! i ! ((p * 32 + q) * 3 + r) = X ! i ! p ! q ! r \<and>
           gaussian (map (map as_float) A) ! i ! ((p * 32 + q) * 3 + r) =
             (if array_variance X = 0 then None
              else Some ((real (unat (X ! i ! p ! q ! r)) - array_mean X) /
                         sqrt (array_variance X)))"
    if i: "i < n" and p: "p < 32" and q: "q < 32" and r: "r < 3" for i p q r
  proof -
    let ?j = "(p * 32 + q) * 3 + r"
    have j: "?j < 3072" by (rule pixel_index [OF p q r])
    have eq: "i * 3072 + ?j = ((i * 32 + p) * 32 + q) * 3 + r" by (simp add: algebra_simps)
    from A(5) i j have "A ! i ! ?j = flatten4 X ! (i * 3072 + ?j)" by blast
    then have "A ! i ! ?j = flatten4 X ! (((i * 32 + p) * 32 + q) * 3 + r)" by (simp only: eq)
    also have "\<dots> = X ! i ! p ! q ! r" by (rule flatten4_shape(2) [OF sh i p q r])
    finally have a: "A ! i ! ?j = X ! i ! p ! q ! r" .
    have "gaussian (map (map as_float) A) ! i ! ?j =
            fdiv (fsub (Some (as_float (A ! i ! ?j))) (Some (array_mean X)))
                 (Some (sqrt (array_variance X)))"
      using i j A(2,3) by (simp add: gaussian_def st)
    with a show ?thesis by (simp add: fsub_def fdiv_def as_float_def)
  qed
  from A(1,2,3) gl gr ent show ?thesis by (intro exI[of _ A]) simp
qed

text \<open>
  Claim C7. For a training array of shape \<open>(50000, 32, 32, 3)\<close> and a test array of
  shape \<open>(10000, 32, 32, 3)\<close> both reshapes succeed and give 50000 and 10000 rows of
  3072 entries; entry \<open>(p * 32 + q) * 3 + r\<close> of row \<open>i\<close> is the pixel value at
  row \<open>p\<close>, column \<open>q\<close>, channel \<open>r\<close> of image \<open>i\<close>, so every pixel value is
  kept. The preprocessing returns two arrays of the same shapes, and the entry at that
  place of a row is the number \<open>(x - mean) / std\<close> for that pixel value \<open>x\<close>, where
  the mean and the standard deviation (the square root of the mean squared deviation)
  are taken over all entries of the training array for the training rows, and over all
  entries of the test array for the test rows; where the standard deviation is 0 the
  entry is not a finite number.
\<close>

theorem preprocessing_normalizes:
  assumes "has_shape4 50000 32 32 3 X_train" and "has_shape4 10000 32 32 3 X_test"
  shows "\<exists>A B Xtr Xte. np_reshape2 50000 3072 (flatten4 X_train) = Inr A \<and>
     np_reshape2 10000 3072 (flatten4 X_test) = Inr B \<and>
     preprocess X_train X_test = Inr (Xtr, Xte) \<and>
     length A = 50000 \<and> length B = 10000 \<and> length Xtr = 50000 \<and> length Xte = 10000 \<and>
     (\<forall>i<50000. length (A ! i) = 3072 \<and> length (Xtr ! i) = 3072 \<and>
        (\<forall>p<32. \<forall>q<32. \<forall>r<3.
           A ! i ! ((p * 32 + q) * 3 + r) = X_train ! i ! p ! q ! r \<and>
           Xtr ! i ! ((p * 32 + q) * 3 + r) =
             (if array_variance X_train = 0 then None
              else Some ((real (unat (X_train ! i ! p ! q ! r)) - array_mean X_train) /
                         sqrt (array_variance X_train))))) \<and>
     (\<forall>i<10000. length (B ! i) = 3072 \<and> length (Xte ! i) = 3072 \<and>
        (\<forall>p<32. \<forall>q<32. \<forall>r<3.
           B ! i ! ((p * 32 + q) * 3 + r) = X_test ! i ! p ! q ! r \<and>
           Xte ! i ! ((p * 32 + q) * 3 + r) =
             (if array_variance X_test = 0 then None
              else Some ((real (unat (X_test ! i ! p ! q ! r)) - array_mean X_test) /
                         sqrt (array_variance X_test)))))"
proof -
  from normalized_array [OF assms(1)] obtain A where
    A: "np_reshape2 50000 3072 (flatten4 X_train) = Inr A" "length A = 50000"
     "length (gaussian (map (map as_float) A)) = 50000"
     "\<forall>i<50000. length (A ! i) = 3072 \<and>
        length (gaussian (map (map as_float) A) ! i) = 3072 \<and>
        (\<forall>p<32. \<forall>q<32. \<forall>r<3.
           A ! i ! ((p * 32 + q) * 3 + r) = X_train ! i ! p ! q ! r \<and>
           gaussian (map (map as_float) A) ! i ! ((p * 32 + q) * 3 + r) =
             (if array_variance X_train = 0 then None
              else Some ((real (unat (X_train ! i ! p ! q ! r)) - array_mean X_train) /
                         sqrt (array_variance X_train))))"
    by auto
  from normalized_array [OF assms(2)] obtain B where
    B: "np_reshape2 10000 3072 (flatten4 X_test) = Inr B" "length B = 10000"
     "length (gaussian (map (map as_float) B)) = 10000"
     "\<forall>i<10000. length (B ! i) = 3072 \<and>
        length (gaussian (map (map as_float) B) ! i) = 3072 \<and>
        (\<forall>p<32. \<forall>q<32. \<forall>r<3.
           B ! i ! ((p * 32 + q) * 3 + r) = X_test ! i ! p ! q ! r \<and>
           gaussian (map (map as_float) B) ! i ! ((p * 32 + q) * 3 + r) =
             (if array_variance X_test = 0 then None
              else Some ((real (unat (X_test ! i ! p ! q ! r)) - array_mean X_test) /
                         sqrt (array_variance X_test))))"
    by auto
  have "preprocess X_train X_test =
       Inr (gaussian (map (map as_float) A), gaussian (map (map as_float) B))"
    using A(1) B(1) by (simp add: preprocess_def)
  with A B show ?thesis
    by (intro exI[of _ A] exI[of _ B] exI[of _ "gaussian (map (map as_float) A)"]
        exI[of _ "gaussian (map (map as_float) B)"]) simp
qed

lemma striped_shape: "0 < n \<Longrightarrow> length px = 3 \<Longrightarrow> has_shape4 n 32 32 3 (striped px n)"
  by (simp add: has_shape4_def striped_def)

lemma concat_replicate_replicate: "concat (replicate n (replicate m x)) = replicate (n * m) x"
  by (induction n) (simp_all add: replicate_add)

lemma flatten4_striped: "flatten4 (striped px n) = concat (replicate (n * 1024) px)"
proof -
  have "concat (striped px n) = replicate (n * 32) (replicate 32 px)"
    by (simp add: striped_def concat_replicate_replicate)
  then have "concat (concat (striped px n)) = replicate (n * 32 * 32) px"
    by (simp add: concat_replicate_replicate)
  then show ?thesis by (simp add: flatten4_def mult.assoc)
qed

lemma sum_list_concat_replicate:
  "sum_list (map f (concat (replicate k xs))) = real k * sum_list (map f xs)"
  by (induction k) (simp_all add: algebra_simps)

lemma length_concat_replicate: "length (concat (replicate k xs)) = k * length xs"
  by (induction k) simp_all

lemma striped_stats:
  assumes "0 < n"
  shows "array_mean (striped [1, 2, 3] n) = 2" and "array_variance (striped [1, 2, 3] n) = 2 / 3"
    and "array_mean (striped [0, 4, 8] n) = 4" and "array_variance (striped [0, 4, 8] n) = 32 / 3"
proof -
  show m: "array_mean (striped [1, 2, 3] n) = 2"
    using assms
    by (simp add: array_mean_def flatten4_striped sum_list_concat_replicate
        length_concat_replicate)
  show "array_variance (striped [1, 2, 3] n) = 2 / 3"
    using assms
    by (simp add: array_variance_def m flatten4_striped sum_list_concat_replicate
        length_concat_replicate)
  show m': "array_mean (striped [0, 4, 8] n) = 4"
    using assms
    by (simp add: array_mean_def flatten4_striped sum_list_concat_replicate
        length_concat_replicate)
  show "array_variance (striped [0, 4, 8] n) = 32 / 3"
    using assms
    by (simp add: array_variance_def m' flatten4_striped sum_list_concat_replicate
        length_concat_replicate)
qed

theorem preprocessing_normalizes_witness:
  "has_shape4 50000 32 32 3 (striped [1, 2, 3] 50000) \<and>
   has_shape4 10000 32 32 3 (striped [0, 4, 8] 10000) \<and>
   array_mean (striped [1, 2, 3] 50000) = 2 \<and>
   array_variance (striped [1, 2, 3] 50000) = 2 / 3 \<and>
   array_mean (striped [0, 4, 8] 10000) = 4 \<and>
   array_variance (striped [0, 4, 8] 10000) = 32 / 3 \<and>
   (\<exists>Xtr Xte. preprocess (striped [1, 2, 3] 50000) (striped [0, 4, 8] 10000) = Inr (Xtr, Xte) \<and>
       length Xtr = 50000 \<and> length Xte = 10000 \<and>
       Xtr ! 7 ! 3 = Some (- 1 / sqrt (2 / 3)) \<and> Xtr ! 7 ! 4 = Some 0 \<and>
       Xtr ! 7 ! 5 = Some (1 / sqrt (2 / 3)) \<and>
       Xte ! 7 ! 3 = Some (- 4 / sqrt (32 / 3)) \<and> Xte ! 7 ! 4 = Some 0 \<and>
       Xte ! 7 ! 5 = Some (4 / sqrt (32 / 3)))"
proof -
  have s: "has_shape4 50000 32 32 3 (striped [1, 2, 3] 50000)"
    "has_shape4 10000 32 32 3 (striped [0, 4, 8] 10000)"
    by (simp_all add: striped_shape)
  have st: "array_mean (striped [1, 2, 3] 50000) = 2"
    "array_variance (striped [1, 2, 3] 50000) = 2 / 3"
    "array_mean (striped [0, 4, 8] 10000) = 4"
    "array_variance (striped [0, 4, 8] 10000) = 32 / 3"
    by (simp_all add: striped_stats)
  from preprocessing_normalizes [OF s] obtain A B Xtr Xte where
    r: "preprocess (striped [1, 2, 3] 50000) (striped [0, 4, 8] 10000) = Inr (Xtr, Xte)"
      "length Xtr = 50000" "length Xte = 10000"
    and e: "\<forall>i<50000. length (A ! i) = 3072 \<and> length (Xtr ! i) = 3072 \<and>
        (\<forall>p<32. \<forall>q<32. \<forall>r<3.
           A ! i ! ((p * 32 + q) * 3 + r) = striped [1, 2, 3] 50000 ! i ! p ! q ! r \<and>
           Xtr ! i ! ((p * 32 + q) * 3 + r) =
             (if array_variance (striped [1, 2, 3] 50000) = 0 then None
              else Some ((real (unat (striped [1, 2, 3] 50000 ! i ! p ! q ! r)) -
                          array_mean (striped [1, 2, 3] 50000)) /
                         sqrt (array_variance (striped [1, 2, 3] 50000)))))"
    and e': "\<forall>i<10000. length (B ! i) = 3072 \<and> length (Xte ! i) = 3072 \<and>
        (\<forall>p<32. \<forall>q<32. \<forall>r<3.
           B ! i ! ((p * 32 + q) * 3 + r) = striped [0, 4, 8] 10000 ! i ! p ! q ! r \<and>
           Xte ! i ! ((p * 32 + q) * 3 + r) =
             (if array_variance (striped [0, 4, 8] 10000) = 0 then None
              else Some ((real (unat (striped [0, 4, 8] 10000 ! i ! p ! q ! r)) -
                          array_mean (striped [0, 4, 8] 10000)) /
                         sqrt (array_variance (striped [0, 4, 8] 10000)))))"
    by blast
  have px: "striped [1, 2, 3] 50000 ! 7 ! 0 ! 1 = [1, 2, 3]"
    "striped [0, 4, 8] 10000 ! 7 ! 0 ! 1 = [0, 4, 8]"
    by (simp_all add: striped_def)
  have b: "7 < (50000::nat)" "7 < (10000::nat)" "0 < (32::nat)" "1 < (32::nat)" by simp_all
  have ent: "Xtr ! 7 ! ((0 * 32 + 1) * 3 + r) =
      Some ((real (unat ([1, 2, 3] ! r :: 8 word)) - 2) / sqrt (2 / 3))" if "r < 3" for r
  proof -
    from e b that have "Xtr ! 7 ! ((0 * 32 + 1) * 3 + r) =
             (if array_variance (striped [1, 2, 3] 50000) = 0 then None
              else Some ((real (unat (striped [1, 2, 3] 50000 ! 7 ! 0 ! 1 ! r)) -
                          array_mean (striped [1, 2, 3] 50000)) /
                         sqrt (array_variance (striped [1, 2, 3] 50000))))"
      by blast
    then show ?thesis unfolding px st by simp
  qed
  have ent': "Xte ! 7 ! ((0 * 32 + 1) * 3 + r) =
      Some ((real (unat ([0, 4, 8] ! r :: 8 word)) - 4) / sqrt (32 / 3))" if "r < 3" for r
  proof -
    from e' b that have "Xte ! 7 ! ((0 * 32 + 1) * 3 + r) =
             (if array_variance (striped [0, 4, 8] 10000) = 0 then None
              else Some ((real (unat (striped [0, 4, 8] 10000 ! 7 ! 0 ! 1 ! r)) -
                          array_mean (striped [0, 4, 8] 10000)) /
                         sqrt (array_variance (striped [0, 4, 8] 10000))))"
      by blast
    then show ?thesis unfolding px st by simp
  qed
  have "Xtr ! 7 ! 3 = Some (- 1 / sqrt (2 / 3))" using ent [of 0] by simp
  moreover have "Xtr ! 7 ! 4 = Some 0" using ent [of 1] by simp
  moreover have "Xtr ! 7 ! 5 = Some (1 / sqrt (2 / 3))" using ent [of 2] by simp
  moreover have "Xte ! 7 ! 3 = Some (- 4 / sqrt (32 / 3))" using ent' [of 0] by simp
  moreover have "Xte ! 7 ! 4 = Some 0" using ent' [of 1] by simp
  moreover have "Xte ! 7 ! 5 = Some (4 / sqrt (32 / 3))" using ent' [of 2] by simp
  ultimately show ?thesis using r s st by blast
qed

end
